theory Spec2Isabelle
  imports Main "HOL-Library.Word"
begin

unbundle bit_operations_syntax

section \<open>Configuration (AllocConf.h, default values)\<close>

text \<open>
  The allocator is configured at build time. The model fixes the defaults of AllocConf.h:
  page size 1024, header and footer 32 bytes, two zones, at most 10240 pages per zone,
  a quarantine of 32 entries, quarantine check level 1, no check of all allocated blocks,
  payload fill on free, page clearing on eviction, no MPU protection (the MPU stub).
  The target is the 32-bit ARMv7-M, so \<open>size_t\<close> is a 32-bit word. Addresses are natural
  numbers below \<open>2^32\<close>, the null pointer is 0. A failed \<open>ALLOC_ASSERT\<close> (or an access outside a
  fixed-size array) is the result \<open>None\<close>: the call does not return.
\<close>

type_synonym size_t = "32 word"
type_synonym addr = nat

definition ALLOC_PAGE_SIZE :: nat where "ALLOC_PAGE_SIZE = 1024"
definition ALLOC_HEADER_SIZE :: nat where "ALLOC_HEADER_SIZE = 32"
definition ALLOC_FOOTER_SIZE :: nat where "ALLOC_FOOTER_SIZE = 32"
definition ALLOC_MAX_ZONES :: nat where "ALLOC_MAX_ZONES = 2"
definition ALLOC_MAX_PAGES_PER_ZONE :: nat where "ALLOC_MAX_PAGES_PER_ZONE = 10240"
definition ALLOC_QUARANTINE_CAPACITY :: nat where "ALLOC_QUARANTINE_CAPACITY = 32"
definition ALLOC_PATTERN_HEADER_MAGIC :: "32 word" where "ALLOC_PATTERN_HEADER_MAGIC = 0x48454144"
definition ALLOC_PATTERN_FOOTER_MAGIC :: "32 word" where "ALLOC_PATTERN_FOOTER_MAGIC = 0x464F4F54"
definition ALLOC_PATTERN_PADDING :: "8 word" where "ALLOC_PATTERN_PADDING = 0xFE"
definition ALLOC_PATTERN_QUARANTINE_FILL :: "8 word" where "ALLOC_PATTERN_QUARANTINE_FILL = 0xCD"
definition ALLOC_PATTERN_CLEARED_PAGE :: "8 word" where "ALLOC_PATTERN_CLEARED_PAGE = 0x00"

named_theorems conf \<open>the configuration constants\<close>

lemmas conf_defs [conf] =
  ALLOC_PAGE_SIZE_def ALLOC_HEADER_SIZE_def ALLOC_FOOTER_SIZE_def ALLOC_MAX_ZONES_def
  ALLOC_MAX_PAGES_PER_ZONE_def ALLOC_QUARANTINE_CAPACITY_def
  ALLOC_PATTERN_HEADER_MAGIC_def ALLOC_PATTERN_FOOTER_MAGIC_def ALLOC_PATTERN_PADDING_def
  ALLOC_PATTERN_QUARANTINE_FILL_def ALLOC_PATTERN_CLEARED_PAGE_def

section \<open>Page bitmap (PageBitmap.hpp, PageBitmap.cpp)\<close>

definition kMaxWords :: nat where
  "kMaxWords = (ALLOC_MAX_PAGES_PER_ZONE + 31) div 32"

lemmas kMaxWords_conf [conf] = kMaxWords_def

record PageBitmap =
  words :: "32 word list"
  pageCount :: "16 word"

text \<open>\<open>PageBitmap::init\<close>: the assertion, then all words zero.\<close>

definition PageBitmap_init :: "16 word \<Rightarrow> PageBitmap option" where
  "PageBitmap_init count =
     (if unat count \<le> ALLOC_MAX_PAGES_PER_ZONE
      then Some \<lparr>words = replicate kMaxWords 0, pageCount = count\<rparr>
      else None)"

text \<open>
  \<open>set\<close>, \<open>clear\<close> and \<open>test\<close>: the assertion \<open>page < pageCount\<close>, then the access to
  \<open>words[page / 32]\<close>, which lies in the array only below \<open>kMaxWords\<close>.
\<close>

definition bm_set :: "PageBitmap \<Rightarrow> 16 word \<Rightarrow> PageBitmap option" where
  "bm_set b page =
     (if page < pageCount b \<and> unat page div 32 < kMaxWords
      then Some (b\<lparr>words := (words b)[unat page div 32 :=
                   (words b ! (unat page div 32)) OR push_bit (unat page mod 32) 1]\<rparr>)
      else None)"


definition bm_test :: "PageBitmap \<Rightarrow> 16 word \<Rightarrow> bool option" where
  "bm_test b page =
     (if page < pageCount b \<and> unat page div 32 < kMaxWords
      then Some ((words b ! (unat page div 32)) AND push_bit (unat page mod 32) 1 \<noteq> 0)
      else None)"

text \<open>
  \<open>setRange\<close> and \<open>clearRange\<close>: the assertion \<open>start + count <= pageCount\<close> (computed
  in \<open>int\<close>, so without wrap-around), then the loop \<open>for (i = 0; i < count; ++i)\<close>; the
  last argument of the loop function is the number of iterations left.
\<close>

fun setRange_loop :: "PageBitmap \<Rightarrow> 16 word \<Rightarrow> 16 word \<Rightarrow> nat \<Rightarrow> PageBitmap option" where
  "setRange_loop b start i 0 = Some b"
| "setRange_loop b start i (Suc n) =
     (case bm_set b (start + i) of
        None \<Rightarrow> None
      | Some b' \<Rightarrow> setRange_loop b' start (i + 1) n)"

definition setRange :: "PageBitmap \<Rightarrow> 16 word \<Rightarrow> 16 word \<Rightarrow> PageBitmap option" where
  "setRange b start count =
     (if unat start + unat count \<le> unat (pageCount b)
      then setRange_loop b start 0 (unat count)
      else None)"



text \<open>
  \<open>findFreeRun\<close>: the loop over \<open>i\<close> with the run start and the run length. The loop
  index is a \<open>uint16_t\<close>; it is kept as a natural number, because the access to
  \<open>words[i / 32]\<close> leaves the array (the result \<open>None\<close>) long before the index could
  wrap: \<open>i / 32 < kMaxWords = 320\<close> bounds the index after the skip of a full word
  by \<open>320 * 32\<close>. The result is the \<open>int32_t\<close> of the source, \<open>-1\<close> for "not found".
\<close>

function findFreeRun_loop :: "PageBitmap \<Rightarrow> 16 word \<Rightarrow> nat \<Rightarrow> nat \<Rightarrow> nat \<Rightarrow> int option" where
  "findFreeRun_loop b count i runStart runLen =
     (if i < unat (pageCount b) then
        (let wordIdx = i div 32 in
         if wordIdx < kMaxWords then
           (if runLen = 0 \<and> words b ! wordIdx = 0xFFFFFFFF
            then findFreeRun_loop b count ((wordIdx + 1) * 32 - 1 + 1) runStart runLen
            else
              (case bm_test b (of_nat i) of
                 None \<Rightarrow> None
               | Some t \<Rightarrow>
                   if \<not> t then
                     (let runStart' = (if runLen = 0 then i else runStart);
                          runLen' = runLen + 1
                      in if runLen' \<ge> unat count then Some (int runStart')
                         else findFreeRun_loop b count (i + 1) runStart' runLen')
                   else findFreeRun_loop b count (i + 1) runStart 0))
         else None)
      else Some (- 1))"
  by pat_completeness auto
termination
  by (relation "measure (\<lambda>(b, count, i, runStart, runLen). unat (pageCount b) - i)")
     (auto simp: Let_def)

declare findFreeRun_loop.simps [simp del]

definition findFreeRun :: "PageBitmap \<Rightarrow> 16 word \<Rightarrow> int option" where
  "findFreeRun b count =
     (if count = 0 \<or> count > pageCount b then Some (- 1)
      else findFreeRun_loop b count 0 0 0)"

text \<open>
  \<open>countSet\<close>: the population count of the full words, then the bits of the last,
  partial word one by one; \<open>countClear\<close> is the difference. Both are \<open>uint16_t\<close>.
\<close>

definition popcount32 :: "32 word \<Rightarrow> nat" where
  "popcount32 w = length (filter (\<lambda>k. bit w k) [0..<32])"

fun countSet_words :: "PageBitmap \<Rightarrow> nat \<Rightarrow> nat \<Rightarrow> 16 word \<Rightarrow> 16 word option" where
  "countSet_words b w 0 n = Some n"
| "countSet_words b w (Suc k) n =
     (if w < kMaxWords then countSet_words b (w + 1) k (n + of_nat (popcount32 (words b ! w)))
      else None)"

fun countSet_rest :: "PageBitmap \<Rightarrow> nat \<Rightarrow> nat \<Rightarrow> 16 word \<Rightarrow> 16 word option" where
  "countSet_rest b i 0 n = Some n"
| "countSet_rest b i (Suc k) n =
     (case bm_test b (of_nat i) of
        None \<Rightarrow> None
      | Some t \<Rightarrow> countSet_rest b (i + 1) k (if t then n + 1 else n))"

definition countSet :: "PageBitmap \<Rightarrow> 16 word option" where
  "countSet b =
     (let fullWords = unat (pageCount b) div 32 in
      case countSet_words b 0 fullWords 0 of
        None \<Rightarrow> None
      | Some n \<Rightarrow> countSet_rest b (fullWords * 32) (unat (pageCount b) - fullWords * 32) n)"

definition countClear :: "PageBitmap \<Rightarrow> 16 word option" where
  "countClear b = (case countSet b of None \<Rightarrow> None | Some n \<Rightarrow> Some (pageCount b - n))"

section \<open>Quarantine table (AllocTypes.h, Quarantine.hpp, Quarantine.cpp)\<close>

text \<open>
  The entry of AllocTypes.h. Two fields are renamed, because a record field is a global
  name: \<open>qPageCount\<close> is the entry's \<open>pageCount\<close> and \<open>qZoneIndex\<close> its
  \<open>zoneIndex\<close>. \<open>mpuRegion\<close> is an \<open>int8_t\<close>, read with \<open>sint\<close>.
\<close>

record AllocQuarantineEntry =
  startPage :: "16 word"
  qPageCount :: "16 word"
  requestedSize :: "32 word"
  freeSequence :: "32 word"
  mpuRegion :: "8 word"
  qZoneIndex :: "8 word"
  active :: "8 word"
  reserved :: "8 word"

record QuarantineTable =
  entries :: "AllocQuarantineEntry list"
  nextSequence :: "32 word"
  activeCount :: "16 word"

definition zeroEntry :: AllocQuarantineEntry where
  "zeroEntry = \<lparr>startPage = 0, qPageCount = 0, requestedSize = 0, freeSequence = 0,
                 mpuRegion = 0, qZoneIndex = 0, active = 0, reserved = 0\<rparr>"

definition QuarantineTable_init :: QuarantineTable where
  "QuarantineTable_init =
     \<lparr>entries = replicate ALLOC_QUARANTINE_CAPACITY zeroEntry, nextSequence = 1, activeCount = 0\<rparr>"

definition isEmpty :: "QuarantineTable \<Rightarrow> bool" where
  "isEmpty q = (activeCount q = 0)"

definition isFull :: "QuarantineTable \<Rightarrow> bool" where
  "isFull q = (unat (activeCount q) \<ge> ALLOC_QUARANTINE_CAPACITY)"

text \<open>
  \<open>findOldest\<close>: one pass over the slots in index order, keeping the slot found so far and
  its sequence number, which starts at \<open>UINT32_MAX\<close>. A pointer to a slot is its index.
\<close>

definition findOldest_step ::
  "AllocQuarantineEntry list \<Rightarrow> nat option \<times> 32 word \<Rightarrow> nat \<Rightarrow> nat option \<times> 32 word" where
  "findOldest_step es acc i =
     (if active (es ! i) \<noteq> 0 \<and> freeSequence (es ! i) < snd acc
      then (Some i, freeSequence (es ! i))
      else acc)"

definition findOldest :: "QuarantineTable \<Rightarrow> nat option" where
  "findOldest q =
     fst (foldl (findOldest_step (entries q)) (None, 0xFFFFFFFF) [0..<ALLOC_QUARANTINE_CAPACITY])"

text \<open>The search for a free slot in \<open>add\<close>: the first inactive slot in index order.\<close>

definition findFreeSlot :: "AllocQuarantineEntry list \<Rightarrow> nat option" where
  "findFreeSlot es = List.find (\<lambda>i. active (es ! i) = 0) [0..<ALLOC_QUARANTINE_CAPACITY]"

text \<open>
  \<open>add\<close>: the result holds the new table and the evicted entry; \<open>Some e\<close> stands for the
  return value \<open>true\<close> with \<open>*evicted = e\<close>, \<open>None\<close> for \<open>false\<close>.
\<close>

definition evictOldest :: "QuarantineTable \<Rightarrow> (QuarantineTable \<times> AllocQuarantineEntry option) option" where
  "evictOldest q =
     (if isFull q then
        (case findOldest q of
           None \<Rightarrow> None
         | Some k \<Rightarrow>
             Some (q\<lparr>entries := (entries q)[k := (entries q ! k)\<lparr>active := 0\<rparr>],
                     activeCount := activeCount q - 1\<rparr>,
                   Some (entries q ! k)))
      else Some (q, None))"

definition QuarantineTable_add ::
  "QuarantineTable \<Rightarrow> 16 word \<Rightarrow> 16 word \<Rightarrow> 32 word \<Rightarrow> 8 word
     \<Rightarrow> (QuarantineTable \<times> AllocQuarantineEntry option) option" where
  "QuarantineTable_add q sp pc rs zi =
     (case evictOldest q of
        None \<Rightarrow> None
      | Some (q1, evicted) \<Rightarrow>
          (case findFreeSlot (entries q1) of
             None \<Rightarrow> None
           | Some slot \<Rightarrow>
               Some (q1\<lparr>entries := (entries q1)[slot :=
                           \<lparr>startPage = sp, qPageCount = pc, requestedSize = rs,
                            freeSequence = nextSequence q1, mpuRegion = - 1,
                            qZoneIndex = zi, active = 1, reserved = 0\<rparr>],
                        nextSequence := nextSequence q1 + 1,
                        activeCount := activeCount q1 + 1\<rparr>,
                     evicted)))"

text \<open>\<open>deactivate\<close>: the entry is given by its index; both assertions, then the update.\<close>

definition deactivate :: "QuarantineTable \<Rightarrow> nat \<Rightarrow> QuarantineTable option" where
  "deactivate q k =
     (if k < ALLOC_QUARANTINE_CAPACITY \<and> active (entries q ! k) \<noteq> 0
      then Some (q\<lparr>entries := (entries q)[k := (entries q ! k)\<lparr>active := 0\<rparr>],
                   activeCount := activeCount q - 1\<rparr>)
      else None)"

section \<open>Memory and block guard (BlockGuard.hpp, BlockGuard.cpp)\<close>

text \<open>
  Memory is a map from addresses to bytes. Multi-byte fields are little-endian, as on
  the target; the header and the footer are 32 bytes with the fields at their natural
  offsets (the source asserts the size at build time).
\<close>

type_synonym mem = "addr \<Rightarrow> 8 word"

definition read8 :: "mem \<Rightarrow> addr \<Rightarrow> 8 word" where
  "read8 m a = m a"

definition write8 :: "mem \<Rightarrow> addr \<Rightarrow> 8 word \<Rightarrow> mem" where
  "write8 m a v = m(a := v)"

definition read16 :: "mem \<Rightarrow> addr \<Rightarrow> 16 word" where
  "read16 m a = ucast (m a) OR push_bit 8 (ucast (m (a + 1)))"

definition write16 :: "mem \<Rightarrow> addr \<Rightarrow> 16 word \<Rightarrow> mem" where
  "write16 m a v = m(a := ucast v, a + 1 := ucast (drop_bit 8 v))"

definition read32 :: "mem \<Rightarrow> addr \<Rightarrow> 32 word" where
  "read32 m a = ucast (m a) OR push_bit 8 (ucast (m (a + 1)))
                OR push_bit 16 (ucast (m (a + 2))) OR push_bit 24 (ucast (m (a + 3)))"

definition write32 :: "mem \<Rightarrow> addr \<Rightarrow> 32 word \<Rightarrow> mem" where
  "write32 m a v = m(a := ucast v, a + 1 := ucast (drop_bit 8 v),
                     a + 2 := ucast (drop_bit 16 v), a + 3 := ucast (drop_bit 24 v))"

definition memset :: "mem \<Rightarrow> addr \<Rightarrow> 8 word \<Rightarrow> nat \<Rightarrow> mem" where
  "memset m a v n = (\<lambda>x. if a \<le> x \<and> x < a + n then v else m x)"

text \<open>\<open>computeChecksum\<close>: XOR of the words \<open>w[i]\<close> with \<open>i + 1 < wordCount\<close>.\<close>

definition computeChecksum :: "mem \<Rightarrow> addr \<Rightarrow> nat \<Rightarrow> 32 word option" where
  "computeChecksum m block blockSize =
     (let wordCount = blockSize div 4 in
      if wordCount \<ge> 2
      then Some (foldl (\<lambda>r i. r XOR read32 m (block + 4 * i)) 0 [0..<wordCount - 1])
      else None)"

text \<open>The stores of \<open>writeHeader\<close> and \<open>writeFooter\<close>, in the order of the source.\<close>

definition writeFields ::
  "mem \<Rightarrow> addr \<Rightarrow> 32 word \<Rightarrow> 32 word \<Rightarrow> 16 word \<Rightarrow> 16 word \<Rightarrow> 8 word \<Rightarrow> 32 word \<Rightarrow> mem" where
  "writeFields m dest magic rs sp pc zi seq =
     (let m1 = write32 m dest magic;
          m2 = write32 m1 (dest + 4) rs;
          m3 = write16 m2 (dest + 8) sp;
          m4 = write16 m3 (dest + 10) pc;
          m5 = write8 m4 (dest + 12) zi;
          m6 = memset m5 (dest + 13) 0 3;
          m7 = write32 m6 (dest + 16) seq;
          m8 = write32 m7 (dest + 20) 0
      in write32 m8 (dest + 24) 0)"

definition writeHeader ::
  "mem \<Rightarrow> addr \<Rightarrow> 32 word \<Rightarrow> 16 word \<Rightarrow> 16 word \<Rightarrow> 8 word \<Rightarrow> 32 word \<Rightarrow> mem option" where
  "writeHeader m dest rs sp pc zi seq =
     (let m9 = writeFields m dest ALLOC_PATTERN_HEADER_MAGIC rs sp pc zi seq in
      case computeChecksum m9 dest ALLOC_HEADER_SIZE of
        None \<Rightarrow> None
      | Some c \<Rightarrow> Some (write32 m9 (dest + 28) c))"

definition writeFooter ::
  "mem \<Rightarrow> addr \<Rightarrow> 32 word \<Rightarrow> 16 word \<Rightarrow> 16 word \<Rightarrow> 8 word \<Rightarrow> 32 word \<Rightarrow> mem option" where
  "writeFooter m dest rs sp pc zi seq =
     (let m9 = writeFields m dest ALLOC_PATTERN_FOOTER_MAGIC rs sp pc zi seq in
      case computeChecksum m9 dest ALLOC_FOOTER_SIZE of
        None \<Rightarrow> None
      | Some c \<Rightarrow> Some (write32 m9 (dest + 28) c))"

definition validateHeader :: "mem \<Rightarrow> addr \<Rightarrow> bool option" where
  "validateHeader m h =
     (if read32 m h \<noteq> ALLOC_PATTERN_HEADER_MAGIC then Some False
      else case computeChecksum m h ALLOC_HEADER_SIZE of
             None \<Rightarrow> None
           | Some c \<Rightarrow> Some (read32 m (h + 28) = c))"

definition validateFooter :: "mem \<Rightarrow> addr \<Rightarrow> bool option" where
  "validateFooter m f =
     (if read32 m f \<noteq> ALLOC_PATTERN_FOOTER_MAGIC then Some False
      else case computeChecksum m f ALLOC_FOOTER_SIZE of
             None \<Rightarrow> None
           | Some c \<Rightarrow> Some (read32 m (f + 28) = c))"

definition validatePair :: "mem \<Rightarrow> addr \<Rightarrow> addr \<Rightarrow> bool" where
  "validatePair m h f =
     (if read32 m (h + 4) \<noteq> read32 m (f + 4) then False
      else if read16 m (h + 8) \<noteq> read16 m (f + 8) then False
      else if read16 m (h + 10) \<noteq> read16 m (f + 10) then False
      else if read8 m (h + 12) \<noteq> read8 m (f + 12) then False
      else if read32 m (h + 16) \<noteq> read32 m (f + 16) then False
      else True)"

definition fillPadding :: "mem \<Rightarrow> addr \<Rightarrow> nat \<Rightarrow> mem" where
  "fillPadding m p n = memset m p ALLOC_PATTERN_PADDING n"



definition userDataFromHeader :: "addr \<Rightarrow> addr" where
  "userDataFromHeader h = h + ALLOC_HEADER_SIZE"


text \<open>
  \<open>footerFromHeader\<close> and \<open>paddingFromHeader\<close> add the \<open>requestedSize\<close> field, any 32-bit
  value, to the header's address: on the target the pointer has 32 bits, so the sum is taken
  modulo \<open>2^32\<close>.
\<close>

definition footerFromHeader :: "mem \<Rightarrow> addr \<Rightarrow> addr" where
  "footerFromHeader m h = (h + ALLOC_HEADER_SIZE + unat (read32 m (h + 4))) mod 2 ^ 32"

definition paddingFromHeader :: "mem \<Rightarrow> addr \<Rightarrow> addr" where
  "paddingFromHeader m h =
     (h + ALLOC_HEADER_SIZE + unat (read32 m (h + 4)) + ALLOC_FOOTER_SIZE) mod 2 ^ 32"

text \<open>
  \<open>paddingSize\<close>: \<open>usedBytes\<close> is a sum of three 32-bit unsigned values and wraps;
  the assertion, then the difference.
\<close>

definition paddingSize :: "mem \<Rightarrow> addr \<Rightarrow> size_t option" where
  "paddingSize m h =
     (let totalBytes = (ucast (read16 m (h + 10)) :: size_t) * of_nat ALLOC_PAGE_SIZE;
          usedBytes = (of_nat ALLOC_HEADER_SIZE + read32 m (h + 4) + of_nat ALLOC_FOOTER_SIZE :: size_t)
      in if totalBytes \<ge> usedBytes then Some (totalBytes - usedBytes) else None)"

section \<open>Page allocator of one zone (PageAllocator.hpp, PageAllocator.cpp)\<close>

record PageAllocator =
  baseAddress :: addr
  regionSize :: size_t
  totalPages :: "16 word"
  zoneIndex :: "8 word"
  initialized :: bool
  bitmapInUse :: PageBitmap
  bitmapAllocated :: PageBitmap
  quarantine :: QuarantineTable
  sequenceCounter :: "32 word"
  freePagesCount :: size_t
  minEverFreePages :: size_t
  successfulAllocs :: size_t
  successfulFrees :: size_t

text \<open>
  \<open>init\<close> writes every field, so the model builds the zone from the arguments. The
  page count is the quotient cast to \<open>uint16_t\<close> before the assertions look at it.
\<close>

definition PageAllocator_init :: "addr \<Rightarrow> size_t \<Rightarrow> 8 word \<Rightarrow> PageAllocator option" where
  "PageAllocator_init start sz zone =
     (if start = 0 \<or> unat sz < ALLOC_PAGE_SIZE then None
      else
        (let tp = (ucast (sz div of_nat ALLOC_PAGE_SIZE) :: 16 word) in
         if tp = 0 \<or> unat tp > ALLOC_MAX_PAGES_PER_ZONE then None
         else
           (case PageBitmap_init tp of
              None \<Rightarrow> None
            | Some bu \<Rightarrow>
                (case PageBitmap_init tp of
                   None \<Rightarrow> None
                 | Some ba \<Rightarrow>
                     Some \<lparr>baseAddress = start, regionSize = sz, totalPages = tp,
                           zoneIndex = zone, initialized = True,
                           bitmapInUse = bu, bitmapAllocated = ba,
                           quarantine = QuarantineTable_init,
                           sequenceCounter = 0, freePagesCount = ucast tp,
                           minEverFreePages = ucast tp,
                           successfulAllocs = 0, successfulFrees = 0\<rparr>))))"

text \<open>\<open>pagesNeeded\<close>: \<open>size_t\<close> arithmetic (it wraps), then the cast to \<open>uint16_t\<close>.\<close>

definition pagesNeeded :: "size_t \<Rightarrow> 16 word" where
  "pagesNeeded rs =
     (let total = (of_nat ALLOC_HEADER_SIZE + rs + of_nat ALLOC_FOOTER_SIZE :: size_t)
      in ucast ((total + of_nat ALLOC_PAGE_SIZE - 1) div of_nat ALLOC_PAGE_SIZE))"

definition pageAddress :: "PageAllocator \<Rightarrow> 16 word \<Rightarrow> addr" where
  "pageAddress z pageIdx = baseAddress z + unat pageIdx * ALLOC_PAGE_SIZE"

text \<open>
  \<open>verifyQuarantine\<close> at check level 1: header, footer and pair of every active entry,
  in index order, stopping at the first failure.
\<close>

definition verifyEntry :: "PageAllocator \<Rightarrow> mem \<Rightarrow> AllocQuarantineEntry \<Rightarrow> bool option" where
  "verifyEntry z m e =
     (if active e = 0 then Some True
      else
        (let header = pageAddress z (startPage e) in
         case validateHeader m header of
           None \<Rightarrow> None
         | Some hv \<Rightarrow>
             if \<not> hv then Some False
             else
               (let footer = footerFromHeader m header in
                case validateFooter m footer of
                  None \<Rightarrow> None
                | Some fv \<Rightarrow>
                    if \<not> fv then Some False
                    else if \<not> validatePair m header footer then Some False
                    else Some True)))"

fun verifyQuarantine_loop :: "PageAllocator \<Rightarrow> mem \<Rightarrow> nat \<Rightarrow> nat \<Rightarrow> bool option" where
  "verifyQuarantine_loop z m i 0 = Some True"
| "verifyQuarantine_loop z m i (Suc n) =
     (case verifyEntry z m (entries (quarantine z) ! i) of
        None \<Rightarrow> None
      | Some ok \<Rightarrow> if \<not> ok then Some False else verifyQuarantine_loop z m (i + 1) n)"

definition verifyQuarantine :: "PageAllocator \<Rightarrow> mem \<Rightarrow> bool option" where
  "verifyQuarantine z m = verifyQuarantine_loop z m 0 ALLOC_QUARANTINE_CAPACITY"

text \<open>
  \<open>allocate\<close>: the result is the new zone, the new memory and the returned pointer
  (0 is NULL). The steps follow the source one by one.
\<close>

definition allocate :: "PageAllocator \<Rightarrow> mem \<Rightarrow> size_t \<Rightarrow> (PageAllocator \<times> mem \<times> addr) option" where
  "allocate z m rs =
     (if \<not> initialized z \<or> rs = 0 then Some (z, m, 0)
      else
        (let pages = pagesNeeded rs in
         if (ucast pages :: size_t) > freePagesCount z then Some (z, m, 0)
         else
           (case verifyQuarantine z m of
              None \<Rightarrow> None
            | Some ok \<Rightarrow>
                if \<not> ok then None
                else
                  (case findFreeRun (bitmapInUse z) pages of
                     None \<Rightarrow> None
                   | Some sp32 \<Rightarrow>
                       if sp32 < 0 then Some (z, m, 0)
                       else
                         (let sp = (word_of_int sp32 :: 16 word);
                              seq = sequenceCounter z
                          in case setRange (bitmapInUse z) sp pages of
                               None \<Rightarrow> None
                             | Some bu \<Rightarrow>
                          (case setRange (bitmapAllocated z) sp pages of
                               None \<Rightarrow> None
                             | Some ba \<Rightarrow>
                          (let headerAddr = pageAddress z sp in
                           case writeHeader m headerAddr rs sp pages (zoneIndex z) seq of
                               None \<Rightarrow> None
                             | Some m1 \<Rightarrow>
                          (let footer = footerFromHeader m1 headerAddr in
                           case writeFooter m1 footer rs sp pages (zoneIndex z) seq of
                               None \<Rightarrow> None
                             | Some m2 \<Rightarrow>
                          (case paddingSize m2 headerAddr of
                               None \<Rightarrow> None
                             | Some padLen \<Rightarrow>
                          (let m3 = (if padLen > 0
                                     then fillPadding m2 (paddingFromHeader m2 headerAddr) (unat padLen)
                                     else m2);
                               fp = freePagesCount z - ucast pages
                           in Some (z\<lparr>bitmapInUse := bu, bitmapAllocated := ba,
                                      sequenceCounter := seq + 1,
                                      freePagesCount := fp,
                                      minEverFreePages :=
                                        (if fp < minEverFreePages z then fp else minEverFreePages z),
                                      successfulAllocs := successfulAllocs z + 1\<rparr>,
                                    m3, userDataFromHeader headerAddr)))))))))))"



text \<open>\<open>calloc\<close>: the overflow guard with \<open>SIZE_MAX\<close>, the allocation, the zero fill.\<close>

definition SIZE_MAX :: size_t where
  "SIZE_MAX = - 1"

definition calloc :: "PageAllocator \<Rightarrow> mem \<Rightarrow> size_t \<Rightarrow> size_t \<Rightarrow> (PageAllocator \<times> mem \<times> addr) option" where
  "calloc z m num elemSize =
     (if num > 0 \<and> elemSize > SIZE_MAX div num then Some (z, m, 0)
      else
        (let total = num * elemSize in
         case allocate z m total of
           None \<Rightarrow> None
         | Some (z', m', ptr) \<Rightarrow>
             Some (z', (if ptr \<noteq> 0 then memset m' ptr 0 (unat total) else m'), ptr)))"

section \<open>Multi-zone allocator (AllocatorZones.h, AllocatorCustomCpp.hpp, AllocatorCustomCpp.cpp)\<close>

text \<open>
  The router over the zones. The lock, the unlock and the test for interrupt context
  change nothing in a sequential model and are left out. An enumeration value outside
  \<open>HeapZone_t\<close> takes the \<open>default\<close> branch of \<open>resolveRoute\<close>, which is the branch of
  \<open>HEAP_ZONE_ANY\<close>. The members \<open>zones_\<close>, \<open>activeZones_\<close>, \<open>currentZone_\<close> and
  \<open>initialized_\<close> lose the trailing underscore, which a name cannot have here
  (\<open>routerInitialized\<close> for the last, \<open>initialized\<close> being the zone's).
\<close>

datatype HeapZone_t =
  HEAP_ZONE_ANY | HEAP_ZONE_FAST | HEAP_ZONE_SLOW | HEAP_ZONE_FAST_PREFER | HEAP_ZONE_SLOW_PREFER

record ZoneRoute =
  primary :: "8 word"
  secondary :: "8 word"
  trySecondary :: bool

record AllocatorCustomCpp =
  zones :: "PageAllocator list"
  activeZones :: "8 word"
  currentZone :: HeapZone_t
  routerInitialized :: bool

fun resolveRoute :: "HeapZone_t \<Rightarrow> ZoneRoute" where
  "resolveRoute HEAP_ZONE_FAST = \<lparr>primary = 0, secondary = 0, trySecondary = False\<rparr>"
| "resolveRoute HEAP_ZONE_SLOW = \<lparr>primary = 1, secondary = 1, trySecondary = False\<rparr>"
| "resolveRoute HEAP_ZONE_FAST_PREFER = \<lparr>primary = 0, secondary = 1, trySecondary = True\<rparr>"
| "resolveRoute HEAP_ZONE_SLOW_PREFER = \<lparr>primary = 1, secondary = 0, trySecondary = True\<rparr>"
| "resolveRoute HEAP_ZONE_ANY = \<lparr>primary = 0, secondary = 1, trySecondary = True\<rparr>"

text \<open>One attempt in zone \<open>i\<close>: the zone's \<open>allocate\<close>, with the zone stored back.\<close>

definition allocateInZone ::
  "AllocatorCustomCpp \<Rightarrow> mem \<Rightarrow> nat \<Rightarrow> size_t \<Rightarrow> (AllocatorCustomCpp \<times> mem \<times> addr) option" where
  "allocateInZone a m i sz =
     (case allocate (zones a ! i) m sz of
        None \<Rightarrow> None
      | Some (z', m', p) \<Rightarrow> Some (a\<lparr>zones := (zones a)[i := z']\<rparr>, m', p))"

definition callocInZone ::
  "AllocatorCustomCpp \<Rightarrow> mem \<Rightarrow> nat \<Rightarrow> size_t \<Rightarrow> size_t \<Rightarrow> (AllocatorCustomCpp \<times> mem \<times> addr) option" where
  "callocInZone a m i num sz =
     (case calloc (zones a ! i) m num sz of
        None \<Rightarrow> None
      | Some (z', m', p) \<Rightarrow> Some (a\<lparr>zones := (zones a)[i := z']\<rparr>, m', p))"

text \<open>
  The last loop of \<open>allocateWithRoute\<close>, over the zones \<open>i, i + 1, ...\<close> below
  \<open>activeZones\<close>; the last argument is the number of zones left.
\<close>

fun otherZones_loop ::
  "AllocatorCustomCpp \<Rightarrow> mem \<Rightarrow> ZoneRoute \<Rightarrow> size_t \<Rightarrow> nat \<Rightarrow> nat \<Rightarrow> (AllocatorCustomCpp \<times> mem \<times> addr) option" where
  "otherZones_loop a m route sz i 0 = Some (a, m, 0)"
| "otherZones_loop a m route sz i (Suc n) =
     (if i = unat (primary route) then otherZones_loop a m route sz (i + 1) n
      else if trySecondary route \<and> i = unat (secondary route) then otherZones_loop a m route sz (i + 1) n
      else if \<not> initialized (zones a ! i) then otherZones_loop a m route sz (i + 1) n
      else
        (case allocateInZone a m i sz of
           None \<Rightarrow> None
         | Some (a', m', p) \<Rightarrow>
             if p \<noteq> 0 then Some (a', m', p) else otherZones_loop a' m' route sz (i + 1) n))"

definition allocateWithRoute ::
  "AllocatorCustomCpp \<Rightarrow> mem \<Rightarrow> ZoneRoute \<Rightarrow> size_t \<Rightarrow> (AllocatorCustomCpp \<times> mem \<times> addr) option" where
  "allocateWithRoute a m route sz =
     (case (if primary route < activeZones a \<and> initialized (zones a ! unat (primary route))
            then allocateInZone a m (unat (primary route)) sz
            else Some (a, m, 0)) of
        None \<Rightarrow> None
      | Some (a1, m1, p1) \<Rightarrow>
          if p1 \<noteq> 0 then Some (a1, m1, p1)
          else
            (case (if trySecondary route \<and> secondary route < activeZones a1 \<and>
                      secondary route \<noteq> primary route \<and>
                      initialized (zones a1 ! unat (secondary route))
                   then allocateInZone a1 m1 (unat (secondary route)) sz
                   else Some (a1, m1, 0)) of
               None \<Rightarrow> None
             | Some (a2, m2, p2) \<Rightarrow>
                 if p2 \<noteq> 0 then Some (a2, m2, p2)
                 else otherZones_loop a2 m2 route sz 0 (unat (activeZones a2))))"

definition router_allocate ::
  "AllocatorCustomCpp \<Rightarrow> mem \<Rightarrow> size_t \<Rightarrow> (AllocatorCustomCpp \<times> mem \<times> addr) option" where
  "router_allocate a m sz = allocateWithRoute a m (resolveRoute (currentZone a)) sz"

text \<open>\<open>AllocatorCustomCpp::calloc\<close>: the primary, then the secondary; no further zone.\<close>

definition router_calloc ::
  "AllocatorCustomCpp \<Rightarrow> mem \<Rightarrow> size_t \<Rightarrow> size_t \<Rightarrow> (AllocatorCustomCpp \<times> mem \<times> addr) option" where
  "router_calloc a m num sz =
     (let route = resolveRoute (currentZone a) in
      case (if primary route < activeZones a \<and> initialized (zones a ! unat (primary route))
            then callocInZone a m (unat (primary route)) num sz
            else Some (a, m, 0)) of
        None \<Rightarrow> None
      | Some (a1, m1, p1) \<Rightarrow>
          if p1 = 0 \<and> trySecondary route \<and> secondary route < activeZones a1 \<and>
             secondary route \<noteq> primary route \<and>
             initialized (zones a1 ! unat (secondary route))
          then callocInZone a1 m1 (unat (secondary route)) num sz
          else Some (a1, m1, p1))"

definition setZone :: "AllocatorCustomCpp \<Rightarrow> HeapZone_t \<Rightarrow> AllocatorCustomCpp" where
  "setZone a zone = a\<lparr>currentZone := zone\<rparr>"

text \<open>
  \<open>defineHeapRegions\<close>: the regions are the entries of the array, a terminator with a
  null address or a zero size included; reading past the end of the list is reading
  past the array (the result \<open>None\<close>).
\<close>

fun defineHeapRegions_loop ::
  "AllocatorCustomCpp \<Rightarrow> (addr \<times> size_t) list \<Rightarrow> AllocatorCustomCpp option" where
  "defineHeapRegions_loop a [] =
     (if unat (activeZones a) < ALLOC_MAX_ZONES then None else Some a)"
| "defineHeapRegions_loop a ((start, sz) # rest) =
     (if unat (activeZones a) < ALLOC_MAX_ZONES \<and> start \<noteq> 0 \<and> sz \<noteq> 0 then
        (case PageAllocator_init start sz (activeZones a) of
           None \<Rightarrow> None
         | Some z \<Rightarrow>
             defineHeapRegions_loop
               (a\<lparr>zones := (zones a)[unat (activeZones a) := z],
                  activeZones := activeZones a + 1\<rparr>) rest)
      else Some a)"

definition defineHeapRegions ::
  "AllocatorCustomCpp \<Rightarrow> (addr \<times> size_t) list \<Rightarrow> AllocatorCustomCpp option" where
  "defineHeapRegions a regions =
     (case defineHeapRegions_loop
             (a\<lparr>activeZones := 0, currentZone := HEAP_ZONE_ANY, routerInitialized := False\<rparr>) regions of
        None \<Rightarrow> None
      | Some a' \<Rightarrow> if activeZones a' > 0 then Some (a'\<lparr>routerInitialized := True\<rparr>) else None)"

text \<open>The allocator before \<open>defineHeapRegions\<close>: all bytes zero.\<close>

definition zeroZone :: PageAllocator where
  "zeroZone =
     \<lparr>baseAddress = 0, regionSize = 0, totalPages = 0, zoneIndex = 0, initialized = False,
      bitmapInUse = \<lparr>words = replicate kMaxWords 0, pageCount = 0\<rparr>,
      bitmapAllocated = \<lparr>words = replicate kMaxWords 0, pageCount = 0\<rparr>,
      quarantine = \<lparr>entries = replicate ALLOC_QUARANTINE_CAPACITY zeroEntry,
                    nextSequence = 0, activeCount = 0\<rparr>,
      sequenceCounter = 0, freePagesCount = 0, minEverFreePages = 0,
      successfulAllocs = 0, successfulFrees = 0\<rparr>"

definition zeroAllocator :: AllocatorCustomCpp where
  "zeroAllocator =
     \<lparr>zones = replicate ALLOC_MAX_ZONES zeroZone, activeZones = 0,
      currentZone = HEAP_ZONE_ANY, routerInitialized = False\<rparr>"

section \<open>Predicates of the specification\<close>

subsection \<open>Quarantine table\<close>

definition isActive :: "AllocQuarantineEntry \<Rightarrow> bool" where
  "isActive e = (active e \<noteq> 0)"

definition activeEntries :: "QuarantineTable \<Rightarrow> AllocQuarantineEntry list" where
  "activeEntries q = filter isActive (entries q)"

text \<open>
  The invariant of the table as the specification states it, in two parts. \<open>count_ok\<close>:
  the table has its 32 slots, \<open>activeCount\<close> is the number of active entries, and at
  most 32 entries are active. \<open>seq_distinct\<close>: the active entries have pairwise different
  sequence numbers.
\<close>

definition count_ok :: "QuarantineTable \<Rightarrow> bool" where
  "count_ok q =
     (length (entries q) = ALLOC_QUARANTINE_CAPACITY \<and>
      unat (activeCount q) = length (activeEntries q) \<and>
      length (activeEntries q) \<le> ALLOC_QUARANTINE_CAPACITY)"

definition seq_distinct :: "QuarantineTable \<Rightarrow> bool" where
  "seq_distinct q = distinct (map freeSequence (activeEntries q))"

text \<open>Every active entry was numbered before the next number to hand out.\<close>

definition seq_below_next :: "QuarantineTable \<Rightarrow> bool" where
  "seq_below_next q = list_all (\<lambda>e. freeSequence e < nextSequence q) (activeEntries q)"

text \<open>
  The loop invariant of \<open>findOldest\<close> after the slots below \<open>n\<close>: the candidate is
  active, its number is at most that of every active entry seen, and strictly below that of
  every active entry in a slot before it.
\<close>

definition oldest_inv :: "AllocQuarantineEntry list \<Rightarrow> nat \<Rightarrow> nat option \<times> 32 word \<Rightarrow> bool" where
  "oldest_inv es n acc =
     (case fst acc of
        None \<Rightarrow> snd acc = 0xFFFFFFFF \<and>
                (\<forall>j<n. active (es ! j) \<noteq> 0 \<longrightarrow> freeSequence (es ! j) = 0xFFFFFFFF)
      | Some k \<Rightarrow> k < n \<and> active (es ! k) \<noteq> 0 \<and> freeSequence (es ! k) = snd acc \<and>
                (\<forall>j<n. active (es ! j) \<noteq> 0 \<longrightarrow> snd acc \<le> freeSequence (es ! j)) \<and>
                (\<forall>j<k. active (es ! j) \<noteq> 0 \<longrightarrow> snd acc < freeSequence (es ! j)))"

text \<open>The entry that \<open>add\<close> stores.\<close>

definition newEntry :: "QuarantineTable \<Rightarrow> 16 word \<Rightarrow> 16 word \<Rightarrow> 32 word \<Rightarrow> 8 word \<Rightarrow> AllocQuarantineEntry" where
  "newEntry q sp pc rs zi =
     \<lparr>startPage = sp, qPageCount = pc, requestedSize = rs, freeSequence = nextSequence q,
      mpuRegion = - 1, qZoneIndex = zi, active = 1, reserved = 0\<rparr>"

text \<open>
  Three full tables of one-page entries. \<open>fullTable\<close> is the table after 32 insertions
  into the initial table. \<open>preWrapTable\<close> holds the sequence numbers
  \<open>0xFFFFFFDF .. 0xFFFFFFFE\<close> with the next number \<open>0xFFFFFFFF\<close>: the table before the
  insertion that makes the counter wrap around. \<open>wrappedTable\<close> holds the sequence
  numbers \<open>0xFFFFFFE0 .. 0xFFFFFFFF\<close> with the next number \<open>0xFFFFFFE1\<close>: the table in
  which the counter has wrapped around and the newest entry, in slot 0, has been replaced
  again and again since.
\<close>

definition sampleEntry :: "nat \<Rightarrow> 32 word \<Rightarrow> AllocQuarantineEntry" where
  "sampleEntry i s =
     \<lparr>startPage = of_nat i, qPageCount = 1, requestedSize = 100, freeSequence = s,
      mpuRegion = - 1, qZoneIndex = 0, active = 1, reserved = 0\<rparr>"

definition fullTable :: QuarantineTable where
  "fullTable = \<lparr>entries = map (\<lambda>i. sampleEntry i (of_nat i + 1)) [0..<32],
                nextSequence = 33, activeCount = 32\<rparr>"


definition wrappedTable :: QuarantineTable where
  "wrappedTable = \<lparr>entries = map (\<lambda>i. sampleEntry i (0xFFFFFFE0 + of_nat i)) [0..<32],
                   nextSequence = 0xFFFFFFE1, activeCount = 32\<rparr>"


subsection \<open>Block guard\<close>

text \<open>
  \<open>xorWords\<close> is the XOR of the seven 32-bit words before the checksum field.
  \<open>sameBytes\<close> says that two memories agree on a range. \<open>sealRecord\<close> stores the
  checksum; \<open>writeRecord\<close> is the effect of \<open>writeHeader\<close> and \<open>writeFooter\<close>.
\<close>

definition xorWords :: "mem \<Rightarrow> addr \<Rightarrow> 32 word" where
  "xorWords m b = read32 m b XOR read32 m (b + 4) XOR read32 m (b + 8) XOR read32 m (b + 12)
                  XOR read32 m (b + 16) XOR read32 m (b + 20) XOR read32 m (b + 24)"

definition sameBytes :: "mem \<Rightarrow> mem \<Rightarrow> addr \<Rightarrow> nat \<Rightarrow> bool" where
  "sameBytes m' m a n = (\<forall>x. a \<le> x \<and> x < a + n \<longrightarrow> m' x = m x)"

definition sealRecord :: "mem \<Rightarrow> addr \<Rightarrow> mem" where
  "sealRecord m d = write32 m (d + 28) (xorWords m d)"

definition writeRecord :: "mem \<Rightarrow> addr \<Rightarrow> 32 word \<Rightarrow> 32 word \<Rightarrow> 16 word \<Rightarrow> 16 word \<Rightarrow> 8 word \<Rightarrow> 32 word \<Rightarrow> mem" where
  "writeRecord m d mg rs sp pc zi sq = sealRecord (writeFields m d mg rs sp pc zi sq) d"

subsection \<open>A sample zone\<close>

text \<open>
  The zone of the end-to-end scenarios: 16 pages at address \<open>0x20000000\<close>, zone 0,
  right after \<open>init\<close>, and a memory of zero bytes.
\<close>

definition zone16 :: PageAllocator where
  "zone16 = the (PageAllocator_init 0x20000000 16384 0)"

definition mem0 :: mem where
  "mem0 = (\<lambda>x. 0)"

subsection \<open>Page bitmap\<close>






subsection \<open>A sample allocator of two zones\<close>

text \<open>
  Two zones: a fast zone of one page at \<open>0x10000000\<close> and a slow zone of 16 pages at
  \<open>0x20000000\<close>, with the selector set to \<open>HEAP_ZONE_FAST\<close>.
\<close>

definition twoZones :: AllocatorCustomCpp where
  "twoZones =
     setZone (the (defineHeapRegions zeroAllocator
                     [(0x10000000, 1024), (0x20000000, 16384), (0, 0)])) HEAP_ZONE_FAST"

subsection \<open>Zone invariants\<close>















subsection \<open>A sample block and its double free\<close>









section \<open>Properties\<close>

subsection \<open>Page bitmap: the guard of the search\<close>

text \<open>
  C10. \<open>findFreeRun\<close> answers \<open>-1\<close> at once when the requested run has length 0 or
  is longer than the bitmap; in particular a run of length 0 is never answered with
  index 0.
\<close>

theorem findFreeRun_rejects:
  "count = 0 \<or> pageCount b < count \<Longrightarrow>
     findFreeRun b count = Some (- 1) \<and> findFreeRun b count \<noteq> Some 0"
  by (simp add: findFreeRun_def)

theorem findFreeRun_rejects_witness:
  "findFreeRun \<lparr>words = replicate kMaxWords 0, pageCount = 16\<rparr> 0 = Some (- 1) \<and>
   findFreeRun \<lparr>words = replicate kMaxWords 0, pageCount = 16\<rparr> 0 \<noteq> Some 0 \<and>
   findFreeRun \<lparr>words = replicate kMaxWords 0, pageCount = 16\<rparr> 17 = Some (- 1)"
  using findFreeRun_rejects[of 0 "\<lparr>words = replicate kMaxWords 0, pageCount = 16\<rparr>"]
        findFreeRun_rejects[of 17 "\<lparr>words = replicate kMaxWords 0, pageCount = 16\<rparr>"]
  by simp

subsection \<open>Quarantine table: the evicted entry, the invariant\<close>

lemma word32_le_max: "(w :: 32 word) \<le> 0xFFFFFFFF"
proof -
  have "(0xFFFFFFFF :: 32 word) = - 1" by simp
  then show ?thesis by (simp only: word_order.extremum)
qed

lemma oldest_inv_step:
  assumes "oldest_inv es n acc"
  shows "oldest_inv es (Suc n) (findOldest_step es acc n)"
proof (cases "active (es ! n) \<noteq> 0 \<and> freeSequence (es ! n) < snd acc")
  case True
  then have st: "findOldest_step es acc n = (Some n, freeSequence (es ! n))"
    by (simp add: findOldest_step_def)
  have le: "\<forall>j<n. active (es ! j) \<noteq> 0 \<longrightarrow> snd acc \<le> freeSequence (es ! j)"
    using assms by (auto simp: oldest_inv_def split: option.splits)
  then have "\<forall>j<n. active (es ! j) \<noteq> 0 \<longrightarrow> freeSequence (es ! n) < freeSequence (es ! j)"
    using True by (auto intro: less_le_trans)
  with True show ?thesis
    unfolding st oldest_inv_def by (auto simp: less_Suc_eq)
next
  case False
  then have st: "findOldest_step es acc n = acc"
    unfolding findOldest_step_def by (simp only: if_False)
  show ?thesis
  proof (cases "fst acc")
    case None
    with assms False show ?thesis
      unfolding st oldest_inv_def using word32_le_max[of "freeSequence (es ! n)"]
      by (auto simp: less_Suc_eq not_less)
  next
    case (Some k)
    with assms False show ?thesis
      unfolding st oldest_inv_def by (auto simp: less_Suc_eq not_less)
  qed
qed

lemma oldest_inv_foldl:
  "oldest_inv es n (foldl (findOldest_step es) (None, 0xFFFFFFFF) [0..<n])"
proof (induction n)
  case 0
  show ?case by (simp add: oldest_inv_def)
next
  case (Suc n)
  then show ?case by (simp add: oldest_inv_step)
qed

lemma findOldest_Some:
  assumes "findOldest q = Some k"
  shows "k < ALLOC_QUARANTINE_CAPACITY \<and> active (entries q ! k) \<noteq> 0 \<and>
         (\<forall>j<ALLOC_QUARANTINE_CAPACITY. active (entries q ! j) \<noteq> 0 \<longrightarrow>
            freeSequence (entries q ! k) \<le> freeSequence (entries q ! j)) \<and>
         (\<forall>j<k. active (entries q ! j) \<noteq> 0 \<longrightarrow>
            freeSequence (entries q ! k) < freeSequence (entries q ! j))"
  using assms oldest_inv_foldl[of "entries q" ALLOC_QUARANTINE_CAPACITY]
  by (auto simp: findOldest_def oldest_inv_def split: option.splits)

lemma findOldest_None:
  assumes "findOldest q = None" and "j < ALLOC_QUARANTINE_CAPACITY" and "active (entries q ! j) \<noteq> 0"
  shows "freeSequence (entries q ! j) = 0xFFFFFFFF"
  using assms oldest_inv_foldl[of "entries q" ALLOC_QUARANTINE_CAPACITY]
  by (auto simp: findOldest_def oldest_inv_def split: option.splits)

lemma findFreeSlot_Some:
  "findFreeSlot es = Some s \<Longrightarrow> s < ALLOC_QUARANTINE_CAPACITY \<and> active (es ! s) = 0"
  by (auto simp: findFreeSlot_def find_Some_iff)

lemma findFreeSlot_exists:
  assumes "s < ALLOC_QUARANTINE_CAPACITY" and "active (es ! s) = 0"
  shows "\<exists>t. findFreeSlot es = Some t"
proof (cases "findFreeSlot es")
  case None
  with assms show ?thesis by (auto simp: findFreeSlot_def find_None_iff)
next
  case (Some t)
  then show ?thesis by simp
qed

lemma filter_update_split:
  assumes "k < length xs"
  obtains A B where
    "filter P xs = A @ (if P (xs ! k) then [xs ! k] else []) @ B"
    "\<And>y. filter P (xs[k := y]) = A @ (if P y then [y] else []) @ B"
proof
  have "filter P xs = filter P (take k xs @ xs ! k # drop (Suc k) xs)"
    using id_take_nth_drop[OF assms] by simp
  then show "filter P xs = filter P (take k xs) @ (if P (xs ! k) then [xs ! k] else []) @ filter P (drop (Suc k) xs)"
    by simp
  show "\<And>y. filter P (xs[k := y]) = filter P (take k xs) @ (if P y then [y] else []) @ filter P (drop (Suc k) xs)"
    using assms by (simp add: upd_conv_take_nth_drop)
qed

lemma init_inv:
  "count_ok QuarantineTable_init \<and> seq_distinct QuarantineTable_init \<and>
   seq_below_next QuarantineTable_init"
  by (simp add: count_ok_def seq_distinct_def seq_below_next_def activeEntries_def
        QuarantineTable_init_def isActive_def zeroEntry_def)

text \<open>Deactivating an active slot removes one entry from the list of active entries.\<close>

lemma deactivate_slot:
  assumes ok: "count_ok q" and k: "k < ALLOC_QUARANTINE_CAPACITY"
      and act: "active (entries q ! k) \<noteq> 0"
  defines "q' \<equiv> q\<lparr>entries := (entries q)[k := (entries q ! k)\<lparr>active := 0\<rparr>],
                   activeCount := activeCount q - 1\<rparr>"
  obtains A B where "activeEntries q = A @ [entries q ! k] @ B" "activeEntries q' = A @ B"
    "count_ok q'" "active (entries q' ! k) = 0"
proof -
  have len: "length (entries q) = ALLOC_QUARANTINE_CAPACITY"
    using ok by (simp add: count_ok_def)
  with k have kl: "k < length (entries q)" by simp
  obtain A B where
    f1: "filter isActive (entries q) = A @ (if isActive (entries q ! k) then [entries q ! k] else []) @ B"
    and f2: "\<And>y. filter isActive ((entries q)[k := y]) = A @ (if isActive y then [y] else []) @ B"
    using filter_update_split[OF kl, of isActive] by blast
  have a1: "activeEntries q = A @ [entries q ! k] @ B"
    using f1 act by (simp add: activeEntries_def isActive_def)
  have a2: "activeEntries q' = A @ B"
    using f2[of "(entries q ! k)\<lparr>active := 0\<rparr>"] by (simp add: activeEntries_def isActive_def q'_def)
  have cnt: "unat (activeCount q) = Suc (length A + length B)"
    using ok a1 by (simp add: count_ok_def)
  then have "unat (activeCount q) \<noteq> 0" by simp
  then have "activeCount q \<noteq> 0" by (metis unat_0)
  then have "unat (activeCount q - 1) = unat (activeCount q) - 1"
    by (simp add: unat_minus_one)
  with cnt have c2: "unat (activeCount q') = length A + length B"
    by (simp add: q'_def)
  have "length (activeEntries q) \<le> ALLOC_QUARANTINE_CAPACITY"
    using ok by (simp add: count_ok_def)
  then have "count_ok q'"
    using a1 a2 c2 len unfolding count_ok_def by (simp add: q'_def)
  moreover have "active (entries q' ! k) = 0"
    using kl by (simp add: q'_def)
  ultimately show ?thesis using a1 a2 by (rule_tac that)
qed

lemma deactivate_slot_inv:
  assumes ok: "count_ok q" and k: "k < ALLOC_QUARANTINE_CAPACITY"
      and act: "active (entries q ! k) \<noteq> 0"
  defines "q' \<equiv> q\<lparr>entries := (entries q)[k := (entries q ! k)\<lparr>active := 0\<rparr>],
                   activeCount := activeCount q - 1\<rparr>"
  shows "count_ok q'" and "nextSequence q' = nextSequence q"
    and "Suc (length (activeEntries q')) = length (activeEntries q)"
    and "set (activeEntries q') \<subseteq> set (activeEntries q)"
    and "seq_distinct q \<Longrightarrow> seq_distinct q'"
    and "seq_below_next q \<Longrightarrow> seq_below_next q'"
proof -
  obtain A B where a1: "activeEntries q = A @ [entries q ! k] @ B"
    and a2: "activeEntries q' = A @ B" and c: "count_ok q'"
    unfolding q'_def by (rule deactivate_slot[OF ok k act])
  show "count_ok q'" by (rule c)
  show "nextSequence q' = nextSequence q" by (simp add: q'_def)
  show "Suc (length (activeEntries q')) = length (activeEntries q)" by (simp add: a1 a2)
  show "set (activeEntries q') \<subseteq> set (activeEntries q)" by (auto simp: a1 a2)
  show "seq_distinct q \<Longrightarrow> seq_distinct q'" by (simp add: seq_distinct_def a1 a2)
  have n: "nextSequence q' = nextSequence q" by (simp add: q'_def)
  show "seq_below_next q \<Longrightarrow> seq_below_next q'"
    by (simp add: seq_below_next_def a1 a2 n)
qed

lemma deactivate_inv:
  assumes "count_ok q" and "deactivate q k = Some q'"
  shows "count_ok q'" and "seq_distinct q \<Longrightarrow> seq_distinct q'"
    and "seq_below_next q \<Longrightarrow> seq_below_next q'"
proof -
  from assms(2) have k: "k < ALLOC_QUARANTINE_CAPACITY" and act: "active (entries q ! k) \<noteq> 0"
    and q': "q' = q\<lparr>entries := (entries q)[k := (entries q ! k)\<lparr>active := 0\<rparr>],
                   activeCount := activeCount q - 1\<rparr>"
    by (auto simp: deactivate_def split: if_splits)
  note d = deactivate_slot_inv[OF assms(1) k act, folded q']
  show "count_ok q'" by (rule d(1))
  show "seq_distinct q \<Longrightarrow> seq_distinct q'" by (rule d(5))
  show "seq_below_next q \<Longrightarrow> seq_below_next q'" by (rule d(6))
qed

lemma word32_less_succ:
  assumes "(w :: 32 word) \<noteq> 0xFFFFFFFF"
  shows "w < w + 1"
proof -
  have "w + 1 \<noteq> 0" using assms max_word_wrap[of w] by auto
  then have "unat (w + 1) = Suc (unat w)" using unatSuc[of w] by (simp add: add.commute)
  then show ?thesis by (simp add: word_less_nat_alt)
qed

lemma add_Some_decomp:
  assumes "QuarantineTable_add q sp pc rs zi = Some (q', ev)"
  obtains q1 slot where "evictOldest q = Some (q1, ev)"
    and "findFreeSlot (entries q1) = Some slot"
    and "q' = q1\<lparr>entries := (entries q1)[slot := newEntry q1 sp pc rs zi],
                  nextSequence := nextSequence q1 + 1,
                  activeCount := activeCount q1 + 1\<rparr>"
  using assms
  by (auto simp: QuarantineTable_add_def newEntry_def split: option.splits)

lemma exists_active_index:
  assumes "activeEntries q \<noteq> []" and "length (entries q) = ALLOC_QUARANTINE_CAPACITY"
  shows "\<exists>j<ALLOC_QUARANTINE_CAPACITY. active (entries q ! j) \<noteq> 0"
proof -
  from assms(1) obtain e where "e \<in> set (entries q)" "isActive e"
    by (auto simp: activeEntries_def filter_empty_conv)
  then obtain j where "j < length (entries q)" "entries q ! j = e"
    by (auto simp: in_set_conv_nth)
  with \<open>isActive e\<close> assms(2) show ?thesis
    by (auto simp: isActive_def)
qed

lemma exists_inactive_index:
  assumes "length (activeEntries q) < ALLOC_QUARANTINE_CAPACITY"
      and "length (entries q) = ALLOC_QUARANTINE_CAPACITY"
  shows "\<exists>j<ALLOC_QUARANTINE_CAPACITY. active (entries q ! j) = 0"
proof -
  have "filter isActive (entries q) \<noteq> entries q"
    using assms by (auto simp: activeEntries_def)
  then obtain e where "e \<in> set (entries q)" "\<not> isActive e"
    by (auto simp: filter_id_conv)
  then obtain j where "j < length (entries q)" "entries q ! j = e"
    by (auto simp: in_set_conv_nth)
  with \<open>\<not> isActive e\<close> assms(2) show ?thesis
    by (auto simp: isActive_def)
qed

lemma active_nth_in_activeEntries:
  "j < length (entries q) \<Longrightarrow> active (entries q ! j) \<noteq> 0 \<Longrightarrow> entries q ! j \<in> set (activeEntries q)"
  by (simp add: activeEntries_def isActive_def)

lemma evictOldest_cases:
  assumes "evictOldest q = Some (q1, ev)"
  shows "(\<not> isFull q \<and> q1 = q \<and> ev = None) \<or>
         (isFull q \<and> (\<exists>k. findOldest q = Some k \<and> ev = Some (entries q ! k) \<and>
            q1 = q\<lparr>entries := (entries q)[k := (entries q ! k)\<lparr>active := 0\<rparr>],
                   activeCount := activeCount q - 1\<rparr>))"
  using assms by (auto simp: evictOldest_def split: if_splits option.splits)

lemma evictOldest_inv:
  assumes ok: "count_ok q" and ev: "evictOldest q = Some (q1, e)"
  shows "count_ok q1" and "nextSequence q1 = nextSequence q"
    and "length (activeEntries q1) < ALLOC_QUARANTINE_CAPACITY"
    and "set (activeEntries q1) \<subseteq> set (activeEntries q)"
    and "seq_distinct q \<Longrightarrow> seq_distinct q1"
    and "seq_below_next q \<Longrightarrow> seq_below_next q1"
proof -
  from evictOldest_cases[OF ev]
  have "count_ok q1 \<and> nextSequence q1 = nextSequence q \<and>
        length (activeEntries q1) < ALLOC_QUARANTINE_CAPACITY \<and>
        set (activeEntries q1) \<subseteq> set (activeEntries q) \<and>
        (seq_distinct q \<longrightarrow> seq_distinct q1) \<and> (seq_below_next q \<longrightarrow> seq_below_next q1)"
  proof
    assume "\<not> isFull q \<and> q1 = q \<and> e = None"
    with ok show ?thesis by (simp add: count_ok_def isFull_def)
  next
    assume "isFull q \<and> (\<exists>k. findOldest q = Some k \<and> e = Some (entries q ! k) \<and>
            q1 = q\<lparr>entries := (entries q)[k := (entries q ! k)\<lparr>active := 0\<rparr>],
                   activeCount := activeCount q - 1\<rparr>)"
    then obtain k where fo: "findOldest q = Some k"
      and q1: "q1 = q\<lparr>entries := (entries q)[k := (entries q ! k)\<lparr>active := 0\<rparr>],
                     activeCount := activeCount q - 1\<rparr>" by blast
    from findOldest_Some[OF fo] have k: "k < ALLOC_QUARANTINE_CAPACITY"
      and act: "active (entries q ! k) \<noteq> 0" by simp_all
    note d = deactivate_slot_inv[OF ok k act, folded q1]
    have "length (activeEntries q1) < ALLOC_QUARANTINE_CAPACITY"
      using d(3) ok by (simp add: count_ok_def)
    with d show ?thesis by blast
  qed
  then show "count_ok q1" and "nextSequence q1 = nextSequence q"
    and "length (activeEntries q1) < ALLOC_QUARANTINE_CAPACITY"
    and "set (activeEntries q1) \<subseteq> set (activeEntries q)"
    and "seq_distinct q \<Longrightarrow> seq_distinct q1"
    and "seq_below_next q \<Longrightarrow> seq_below_next q1"
    by blast+
qed

text \<open>Storing the new entry in an inactive slot adds one entry to the list of active entries.\<close>

lemma insert_slot:
  fixes sp pc rs zi
  assumes ok: "count_ok q1" and s: "slot < ALLOC_QUARANTINE_CAPACITY"
      and inact: "active (entries q1 ! slot) = 0"
      and room: "length (activeEntries q1) < ALLOC_QUARANTINE_CAPACITY"
  defines "q' \<equiv> q1\<lparr>entries := (entries q1)[slot := newEntry q1 sp pc rs zi],
                    nextSequence := nextSequence q1 + 1,
                    activeCount := activeCount q1 + 1\<rparr>"
  obtains A B where "activeEntries q1 = A @ B"
    "activeEntries q' = A @ [newEntry q1 sp pc rs zi] @ B" "count_ok q'"
proof -
  have len: "length (entries q1) = ALLOC_QUARANTINE_CAPACITY"
    using ok by (simp add: count_ok_def)
  with s have sl: "slot < length (entries q1)" by simp
  obtain A B where
    f1: "filter isActive (entries q1) = A @ (if isActive (entries q1 ! slot) then [entries q1 ! slot] else []) @ B"
    and f2: "\<And>y. filter isActive ((entries q1)[slot := y]) = A @ (if isActive y then [y] else []) @ B"
    using filter_update_split[OF sl, of isActive] by blast
  have a1: "activeEntries q1 = A @ B"
    using f1 inact by (simp add: activeEntries_def isActive_def)
  have a2: "activeEntries q' = A @ [newEntry q1 sp pc rs zi] @ B"
    using f2[of "newEntry q1 sp pc rs zi"]
    by (simp add: activeEntries_def isActive_def newEntry_def q'_def)
  have cnt: "unat (activeCount q1) = length A + length B"
    using ok a1 by (simp add: count_ok_def)
  with room a1 have small: "unat (activeCount q1) < ALLOC_QUARANTINE_CAPACITY" by simp
  have "unat (activeCount q1 + 1) = unat (activeCount q1) + 1"
    using small by (simp add: unat_word_ariths ALLOC_QUARANTINE_CAPACITY_def)
  with cnt have c2: "unat (activeCount q') = Suc (length A + length B)" by (simp add: q'_def)
  have "count_ok q'"
    using c2 a2 len room a1 unfolding count_ok_def by (simp add: q'_def)
  with a1 a2 show ?thesis by (rule_tac that)
qed

text \<open>
  What a returning \<open>add\<close> has done to the list of active entries: after the eviction the
  list is \<open>A @ B\<close>, a sublist of the one before, and the new entry, numbered
  \<open>nextSequence\<close>, is put between \<open>A\<close> and \<open>B\<close>.
\<close>

lemma add_active:
  assumes ok: "count_ok q" and add: "QuarantineTable_add q sp pc rs zi = Some (q', ev)"
  obtains q1 A B where "evictOldest q = Some (q1, ev)"
    "activeEntries q1 = A @ B" "activeEntries q' = A @ [newEntry q sp pc rs zi] @ B"
    "count_ok q'" "nextSequence q' = nextSequence q + 1"
proof -
  from add obtain q1 slot where ev: "evictOldest q = Some (q1, ev)"
    and fs: "findFreeSlot (entries q1) = Some slot"
    and q': "q' = q1\<lparr>entries := (entries q1)[slot := newEntry q1 sp pc rs zi],
                  nextSequence := nextSequence q1 + 1,
                  activeCount := activeCount q1 + 1\<rparr>"
    by (rule add_Some_decomp)
  note e = evictOldest_inv[OF ok ev]
  from findFreeSlot_Some[OF fs] have s: "slot < ALLOC_QUARANTINE_CAPACITY"
    and inact: "active (entries q1 ! slot) = 0" by simp_all
  have ne: "newEntry q1 sp pc rs zi = newEntry q sp pc rs zi"
    using e(2) by (simp add: newEntry_def)
  obtain A B where "activeEntries q1 = A @ B"
    "activeEntries q' = A @ [newEntry q1 sp pc rs zi] @ B" "count_ok q'"
    unfolding q' by (rule insert_slot[OF e(1) s inact e(3)])
  moreover have "nextSequence q' = nextSequence q + 1" using e(2) by (simp add: q')
  ultimately show ?thesis using ev ne by (rule_tac that) simp_all
qed

lemma add_inv:
  assumes ok: "count_ok q" and add: "QuarantineTable_add q sp pc rs zi = Some (q', ev)"
  shows "count_ok q'"
    and "seq_distinct q \<Longrightarrow> seq_below_next q \<Longrightarrow> seq_distinct q'"
    and "seq_below_next q \<Longrightarrow> nextSequence q \<noteq> 0xFFFFFFFF \<Longrightarrow> seq_below_next q'"
proof -
  obtain q1 A B where ev: "evictOldest q = Some (q1, ev)"
    and a1: "activeEntries q1 = A @ B"
    and a2: "activeEntries q' = A @ [newEntry q sp pc rs zi] @ B"
    and c: "count_ok q'" and n: "nextSequence q' = nextSequence q + 1"
    by (rule add_active[OF ok add])
  note e = evictOldest_inv[OF ok ev]
  show "count_ok q'" by (rule c)
  have fresh: "freeSequence (newEntry q sp pc rs zi) = nextSequence q"
    by (simp add: newEntry_def)
  show "seq_distinct q'" if d: "seq_distinct q" and b: "seq_below_next q"
  proof -
    from e(5)[OF d] have d1: "distinct (map freeSequence (A @ B))"
      by (simp add: seq_distinct_def a1)
    from e(6)[OF b] e(2) have "\<forall>x \<in> set (A @ B). freeSequence x < nextSequence q"
      by (simp add: seq_below_next_def list_all_iff a1)
    then have "nextSequence q \<notin> freeSequence ` set (A @ B)" by auto
    with d1 show ?thesis by (auto simp: seq_distinct_def a2 fresh)
  qed
  show "seq_below_next q'" if b: "seq_below_next q" and nowrap: "nextSequence q \<noteq> 0xFFFFFFFF"
  proof -
    have nx: "nextSequence q < nextSequence q + 1"
      using nowrap by (rule word32_less_succ)
    from e(6)[OF b] e(2) have "\<forall>x \<in> set (A @ B). freeSequence x < nextSequence q"
      by (simp add: seq_below_next_def list_all_iff a1)
    with nx show ?thesis
      unfolding seq_below_next_def list_all_iff a2 n using fresh
      by (auto intro: less_trans)
  qed
qed

lemma all_active_when_full:
  assumes ok: "count_ok q" and full: "isFull q"
  shows "j < ALLOC_QUARANTINE_CAPACITY \<Longrightarrow> isActive (entries q ! j)"
    and "activeEntries q = entries q"
proof -
  show all: "activeEntries q = entries q"
  proof (rule ccontr)
    assume "activeEntries q \<noteq> entries q"
    then obtain e where "e \<in> set (entries q)" "\<not> isActive e"
      by (auto simp: activeEntries_def filter_id_conv)
    then have "length (filter isActive (entries q)) < length (entries q)"
      by (rule length_filter_less)
    with ok full show False by (simp add: count_ok_def activeEntries_def isFull_def)
  qed
  assume "j < ALLOC_QUARANTINE_CAPACITY"
  then have "entries q ! j \<in> set (filter isActive (entries q))"
    using all ok by (simp add: activeEntries_def count_ok_def)
  then show "isActive (entries q ! j)" by simp
qed

lemma distinct_when_full:
  assumes ok: "count_ok q" and full: "isFull q" and d: "seq_distinct q"
      and i: "i < ALLOC_QUARANTINE_CAPACITY" and j: "j < ALLOC_QUARANTINE_CAPACITY" and ij: "i \<noteq> j"
  shows "freeSequence (entries q ! i) \<noteq> freeSequence (entries q ! j)"
proof -
  have "distinct (map freeSequence (entries q))"
    using d all_active_when_full(2)[OF ok full] by (simp add: seq_distinct_def)
  moreover have "length (entries q) = ALLOC_QUARANTINE_CAPACITY"
    using ok by (simp add: count_ok_def)
  ultimately show ?thesis using i j ij by (auto simp: distinct_conv_nth)
qed

lemma add_progress:
  assumes ok: "count_ok q" and d: "seq_distinct q"
  shows "\<exists>q' ev. QuarantineTable_add q sp pc rs zi = Some (q', ev)"
proof -
  have len: "length (entries q) = ALLOC_QUARANTINE_CAPACITY"
    using ok by (simp add: count_ok_def)
  have "\<exists>q1 ev. evictOldest q = Some (q1, ev) \<and> (\<exists>s<ALLOC_QUARANTINE_CAPACITY. active (entries q1 ! s) = 0)"
  proof (cases "isFull q")
    case False
    then have "length (activeEntries q) < ALLOC_QUARANTINE_CAPACITY"
      using ok by (simp add: isFull_def count_ok_def)
    from exists_inactive_index[OF this len] False show ?thesis
      by (simp add: evictOldest_def)
  next
    case True
    have "findOldest q \<noteq> None"
    proof
      assume n: "findOldest q = None"
      have a0: "active (entries q ! 0) \<noteq> 0" and a1: "active (entries q ! 1) \<noteq> 0"
        using all_active_when_full(1)[OF ok True, of 0] all_active_when_full(1)[OF ok True, of 1]
        by (simp_all add: isActive_def ALLOC_QUARANTINE_CAPACITY_def)
      have "freeSequence (entries q ! 0) = 0xFFFFFFFF" "freeSequence (entries q ! 1) = 0xFFFFFFFF"
        using findOldest_None[OF n _ a0] findOldest_None[OF n _ a1]
        by (simp_all add: ALLOC_QUARANTINE_CAPACITY_def)
      with distinct_when_full[OF ok True d, of 0 1] show False
        by (simp add: ALLOC_QUARANTINE_CAPACITY_def)
    qed
    then obtain k where fo: "findOldest q = Some k" by blast
    from findOldest_Some[OF fo] have k: "k < ALLOC_QUARANTINE_CAPACITY" by simp
    with len have "active ((entries q)[k := (entries q ! k)\<lparr>active := 0\<rparr>] ! k) = 0" by simp
    with True fo k show ?thesis
      by (auto simp: evictOldest_def)
  qed
  then obtain q1 ev s where ev: "evictOldest q = Some (q1, ev)"
    and s: "s < ALLOC_QUARANTINE_CAPACITY" "active (entries q1 ! s) = 0" by blast
  from findFreeSlot_exists[OF s] obtain t where "findFreeSlot (entries q1) = Some t" by blast
  with ev show ?thesis by (simp add: QuarantineTable_add_def)
qed



text \<open>
  Whether the sequence numbers stay different: they do exactly when no entry that stays
  active bears the number that \<open>add\<close> hands out.
\<close>

lemma add_distinct_iff:
  assumes ok: "count_ok q" and d: "seq_distinct q"
      and add: "QuarantineTable_add q sp pc rs zi = Some (q', ev)"
  shows "seq_distinct q' \<longleftrightarrow>
         (\<forall>e \<in> set (activeEntries q). freeSequence e = nextSequence q \<longrightarrow> ev = Some e)"
proof -
  obtain q1 A B where ev: "evictOldest q = Some (q1, ev)"
    and a1: "activeEntries q1 = A @ B"
    and a2: "activeEntries q' = A @ [newEntry q sp pc rs zi] @ B"
    by (rule add_active[OF ok add])
  note e = evictOldest_inv[OF ok ev]
  from e(5)[OF d] have d1: "distinct (map freeSequence (A @ B))"
    by (simp add: seq_distinct_def a1)
  have fresh: "freeSequence (newEntry q sp pc rs zi) = nextSequence q"
    by (simp add: newEntry_def)
  have l: "seq_distinct q' \<longleftrightarrow> nextSequence q \<notin> freeSequence ` set (activeEntries q1)"
    using d1 by (auto simp: seq_distinct_def a1 a2 fresh)
  have r: "(\<forall>e \<in> set (activeEntries q). freeSequence e = nextSequence q \<longrightarrow> ev = Some e) \<longleftrightarrow>
           nextSequence q \<notin> freeSequence ` set (activeEntries q1)"
  proof -
    from evictOldest_cases[OF ev] show ?thesis
    proof
      assume "\<not> isFull q \<and> q1 = q \<and> ev = None"
      then show ?thesis by (force simp: image_iff)
    next
      assume "isFull q \<and> (\<exists>k. findOldest q = Some k \<and> ev = Some (entries q ! k) \<and>
            q1 = q\<lparr>entries := (entries q)[k := (entries q ! k)\<lparr>active := 0\<rparr>],
                   activeCount := activeCount q - 1\<rparr>)"
      then obtain k where fo: "findOldest q = Some k" and evk: "ev = Some (entries q ! k)"
        and q1: "q1 = q\<lparr>entries := (entries q)[k := (entries q ! k)\<lparr>active := 0\<rparr>],
                       activeCount := activeCount q - 1\<rparr>" by blast
      from findOldest_Some[OF fo] have k: "k < ALLOC_QUARANTINE_CAPACITY"
        and act: "active (entries q ! k) \<noteq> 0" by simp_all
      obtain A' B' where b1: "activeEntries q = A' @ [entries q ! k] @ B'"
        and b2: "activeEntries q1 = A' @ B'"
        unfolding q1 by (rule deactivate_slot[OF ok k act])
      from d have dd: "distinct (map freeSequence (A' @ [entries q ! k] @ B'))"
        by (simp add: seq_distinct_def b1)
      have nk: "\<forall>x \<in> set A' \<union> set B'. freeSequence (entries q ! k) \<noteq> freeSequence x"
        using dd by (auto simp: image_iff)
      show ?thesis
        unfolding b1 b2 evk
      proof
        assume L: "\<forall>e \<in> set (A' @ [entries q ! k] @ B').
                     freeSequence e = nextSequence q \<longrightarrow> Some (entries q ! k) = Some e"
        show "nextSequence q \<notin> freeSequence ` set (A' @ B')"
        proof
          assume "nextSequence q \<in> freeSequence ` set (A' @ B')"
          then have "nextSequence q \<in> freeSequence ` (set A' \<union> set B')" by simp
          then obtain x where fx: "nextSequence q = freeSequence x"
            and x: "x \<in> set A' \<union> set B'" by (rule imageE)
          from x have "x \<in> set (A' @ [entries q ! k] @ B')" by auto
          with L fx[symmetric] have "entries q ! k = x" by blast
          with nk x show False by blast
        qed
      next
        assume R: "nextSequence q \<notin> freeSequence ` set (A' @ B')"
        show "\<forall>e \<in> set (A' @ [entries q ! k] @ B').
                freeSequence e = nextSequence q \<longrightarrow> Some (entries q ! k) = Some e"
        proof (intro ballI impI)
          fix e assume e: "e \<in> set (A' @ [entries q ! k] @ B')"
            and fe: "freeSequence e = nextSequence q"
          have "e \<notin> set A' \<union> set B'"
          proof
            assume "e \<in> set A' \<union> set B'"
            then have "freeSequence e \<in> freeSequence ` set (A' @ B')" by auto
            with R fe show False by simp
          qed
          with e show "Some (entries q ! k) = Some e" by auto
        qed
      qed
    qed
  qed
  from l r show ?thesis by simp
qed

lemma add_next:
  assumes "QuarantineTable_add q sp pc rs zi = Some (q', ev)"
  shows "nextSequence q' = nextSequence q + 1"
proof -
  from assms obtain q1 slot where ev: "evictOldest q = Some (q1, ev)"
    and q': "q' = q1\<lparr>entries := (entries q1)[slot := newEntry q1 sp pc rs zi],
                  nextSequence := nextSequence q1 + 1,
                  activeCount := activeCount q1 + 1\<rparr>"
    by (rule add_Some_decomp)
  from evictOldest_cases[OF ev] have "nextSequence q1 = nextSequence q" by auto
  then show ?thesis by (simp add: q')
qed

lemma add_stores:
  assumes ok: "count_ok q" and add: "QuarantineTable_add q sp pc rs zi = Some (q', ev)"
  shows "\<exists>slot<ALLOC_QUARANTINE_CAPACITY. entries q' ! slot = newEntry q sp pc rs zi"
proof -
  from add obtain q1 slot where ev: "evictOldest q = Some (q1, ev)"
    and fs: "findFreeSlot (entries q1) = Some slot"
    and q': "q' = q1\<lparr>entries := (entries q1)[slot := newEntry q1 sp pc rs zi],
                  nextSequence := nextSequence q1 + 1,
                  activeCount := activeCount q1 + 1\<rparr>"
    by (rule add_Some_decomp)
  note e = evictOldest_inv[OF ok ev]
  from findFreeSlot_Some[OF fs] have s: "slot < ALLOC_QUARANTINE_CAPACITY" by simp
  have "length (entries q1) = ALLOC_QUARANTINE_CAPACITY" using e(1) by (simp add: count_ok_def)
  with s have "entries q' ! slot = newEntry q1 sp pc rs zi" by (simp add: q')
  also have "\<dots> = newEntry q sp pc rs zi" using e(2) by (simp add: newEntry_def)
  finally show ?thesis using s by blast
qed

lemma fullTable_facts:
  "isFull fullTable" "count_ok fullTable" "seq_distinct fullTable" "seq_below_next fullTable"
  by code_simp+

lemma fullTable_add:
  "QuarantineTable_add fullTable 5 1 100 0 =
     Some (fst (the (QuarantineTable_add fullTable 5 1 100 0)), Some (sampleEntry 0 1))"
  "QuarantineTable_add (fst (the (QuarantineTable_add fullTable 5 1 100 0))) 6 1 100 0 =
     Some (fst (the (QuarantineTable_add (fst (the (QuarantineTable_add fullTable 5 1 100 0))) 6 1 100 0)),
           Some (sampleEntry 1 2))"
  by code_simp+




text \<open>
  C9, as worded, fails once \<open>nextSequence\<close> has wrapped around: the table
  \<open>wrappedTable\<close> has 32 active entries with pairwise different sequence numbers and
  \<open>activeCount = 32\<close>, and \<open>add\<close> gives the new entry the number \<open>0xFFFFFFE1\<close>,
  which the active entry of slot 1 bears already.
\<close>

theorem add_after_wrap_duplicates_sequence:
  "count_ok wrappedTable \<and> seq_distinct wrappedTable \<and>
   map_option (seq_distinct \<circ> fst) (QuarantineTable_add wrappedTable 5 1 100 0) = Some False"
  by code_simp

text \<open>
  C9, amended. After \<open>init\<close>, \<open>activeCount\<close> is the number of active entries, at most 32
  entries are active, no two active entries share a \<open>freeSequence\<close>, and every active
  \<open>freeSequence\<close> is below \<open>nextSequence\<close>. Every returning \<open>add\<close> and \<open>deactivate\<close> on a
  table with the first two properties (\<open>count_ok\<close>) gives a table with them; \<open>deactivate\<close>
  also keeps each of the other two. \<open>add\<close> stores an entry numbered \<open>nextSequence\<close> and
  increments \<open>nextSequence\<close>, so the numbers it assigns increase strictly until
  \<open>nextSequence\<close> is \<open>UINT32_MAX\<close>. On a table with \<open>count_ok\<close> where no two active
  entries share a \<open>freeSequence\<close>, \<open>add\<close> returns, and afterwards no two active entries
  share one exactly when no active entry other than the evicted one bears \<open>nextSequence\<close>;
  this is so whenever every active \<open>freeSequence\<close> is below \<open>nextSequence\<close>, a property
  that \<open>add\<close> keeps unless \<open>nextSequence\<close> is \<open>UINT32_MAX\<close>.
\<close>

theorem quarantine_invariant:
  "count_ok QuarantineTable_init \<and> seq_distinct QuarantineTable_init \<and>
   seq_below_next QuarantineTable_init \<and>
   (count_ok q \<and> QuarantineTable_add q sp pc rs zi = Some (q', ev) \<longrightarrow>
      count_ok q' \<and>
      (\<exists>slot<ALLOC_QUARANTINE_CAPACITY. entries q' ! slot = newEntry q sp pc rs zi) \<and>
      nextSequence q' = nextSequence q + 1 \<and>
      (nextSequence q \<noteq> 0xFFFFFFFF \<longrightarrow> nextSequence q < nextSequence q') \<and>
      (seq_distinct q \<longrightarrow>
         (seq_distinct q' \<longleftrightarrow>
            (\<forall>e \<in> set (activeEntries q). freeSequence e = nextSequence q \<longrightarrow> ev = Some e))) \<and>
      (seq_distinct q \<and> seq_below_next q \<longrightarrow> seq_distinct q') \<and>
      (seq_below_next q \<and> nextSequence q \<noteq> 0xFFFFFFFF \<longrightarrow> seq_below_next q')) \<and>
   (count_ok q \<and> seq_distinct q \<longrightarrow>
      (\<exists>q1 ev1. QuarantineTable_add q sp pc rs zi = Some (q1, ev1))) \<and>
   (count_ok q \<and> deactivate q k = Some q2 \<longrightarrow>
      count_ok q2 \<and> (seq_distinct q \<longrightarrow> seq_distinct q2) \<and>
      (seq_below_next q \<longrightarrow> seq_below_next q2))"
proof -
  have a: "count_ok q' \<and>
      (\<exists>slot<ALLOC_QUARANTINE_CAPACITY. entries q' ! slot = newEntry q sp pc rs zi) \<and>
      nextSequence q' = nextSequence q + 1 \<and>
      (nextSequence q \<noteq> 0xFFFFFFFF \<longrightarrow> nextSequence q < nextSequence q') \<and>
      (seq_distinct q \<longrightarrow>
         (seq_distinct q' \<longleftrightarrow>
            (\<forall>e \<in> set (activeEntries q). freeSequence e = nextSequence q \<longrightarrow> ev = Some e))) \<and>
      (seq_distinct q \<and> seq_below_next q \<longrightarrow> seq_distinct q') \<and>
      (seq_below_next q \<and> nextSequence q \<noteq> 0xFFFFFFFF \<longrightarrow> seq_below_next q')"
    if "count_ok q \<and> QuarantineTable_add q sp pc rs zi = Some (q', ev)"
  proof -
    from that have ok: "count_ok q" and add: "QuarantineTable_add q sp pc rs zi = Some (q', ev)"
      by simp_all
    note i = add_inv[OF ok add]
    have n: "nextSequence q' = nextSequence q + 1" by (rule add_next[OF add])
    have "nextSequence q < nextSequence q'" if "nextSequence q \<noteq> 0xFFFFFFFF"
      unfolding n using that by (rule word32_less_succ)
    with i n add_distinct_iff[OF ok _ add] add_stores[OF ok add] show ?thesis by blast
  qed
  have p: "\<exists>q1 ev1. QuarantineTable_add q sp pc rs zi = Some (q1, ev1)"
    if "count_ok q \<and> seq_distinct q"
    using that add_progress[of q sp pc rs zi] by blast
  have d: "count_ok q2 \<and> (seq_distinct q \<longrightarrow> seq_distinct q2) \<and>
      (seq_below_next q \<longrightarrow> seq_below_next q2)"
    if "count_ok q \<and> deactivate q k = Some q2"
  proof -
    from that have ok: "count_ok q" and de: "deactivate q k = Some q2" by simp_all
    from deactivate_inv[OF ok de] show ?thesis by blast
  qed
  show ?thesis
    apply (intro conjI)
         apply (rule init_inv[THEN conjunct1])
        apply (rule init_inv[THEN conjunct2, THEN conjunct1])
       apply (rule init_inv[THEN conjunct2, THEN conjunct2])
      apply (rule impI, rule a, assumption)
     apply (rule impI, rule p, assumption)
    apply (rule impI, rule d, assumption)
    done
qed

theorem quarantine_invariant_witness:
  "count_ok fullTable \<and> seq_distinct fullTable \<and> seq_below_next fullTable \<and>
   nextSequence fullTable \<noteq> 0xFFFFFFFF \<and>
   QuarantineTable_add fullTable 5 1 100 0 =
     Some (fst (the (QuarantineTable_add fullTable 5 1 100 0)), Some (sampleEntry 0 1)) \<and>
   count_ok (fst (the (QuarantineTable_add fullTable 5 1 100 0))) \<and>
   seq_distinct (fst (the (QuarantineTable_add fullTable 5 1 100 0))) \<and>
   seq_below_next (fst (the (QuarantineTable_add fullTable 5 1 100 0))) \<and>
   nextSequence fullTable < nextSequence (fst (the (QuarantineTable_add fullTable 5 1 100 0))) \<and>
   (\<exists>q1 ev1. QuarantineTable_add fullTable 5 1 100 0 = Some (q1, ev1)) \<and>
   deactivate fullTable 0 = Some (the (deactivate fullTable 0)) \<and>
   count_ok (the (deactivate fullTable 0)) \<and> seq_distinct (the (deactivate fullTable 0)) \<and>
   seq_below_next (the (deactivate fullTable 0))"
proof -
  note f = fullTable_facts
  have h1: "nextSequence fullTable \<noteq> 0xFFFFFFFF" by (simp add: fullTable_def)
  have h2: "deactivate fullTable 0 = Some (the (deactivate fullTable 0))" by code_simp
  note t = quarantine_invariant[where q=fullTable and sp=5 and pc=1 and rs=100 and zi=0
      and q'="fst (the (QuarantineTable_add fullTable 5 1 100 0))" and ev="Some (sampleEntry 0 1)"
      and k=0 and ?q2.0="the (deactivate fullTable 0)"]
  note r = t[THEN conjunct2, THEN conjunct2, THEN conjunct2]
  note a = r[THEN conjunct1, rule_format, OF conjI[OF f(2) fullTable_add(1)]]
  note p = r[THEN conjunct2, THEN conjunct1, rule_format, OF conjI[OF f(2) f(3)]]
  note d = r[THEN conjunct2, THEN conjunct2, rule_format, OF conjI[OF f(2) h2]]
  from a f h1 have a': "count_ok (fst (the (QuarantineTable_add fullTable 5 1 100 0))) \<and>
   seq_distinct (fst (the (QuarantineTable_add fullTable 5 1 100 0))) \<and>
   seq_below_next (fst (the (QuarantineTable_add fullTable 5 1 100 0))) \<and>
   nextSequence fullTable < nextSequence (fst (the (QuarantineTable_add fullTable 5 1 100 0)))"
    by blast
  from d f have d': "count_ok (the (deactivate fullTable 0)) \<and>
      seq_distinct (the (deactivate fullTable 0)) \<and> seq_below_next (the (deactivate fullTable 0))"
    by blast
  from f(2-4) h1 fullTable_add(1) a' p h2 d' show ?thesis by (intro conjI) blast+
qed

subsection \<open>Memory: reads after writes\<close>

lemma read32_write32_same: "read32 (write32 m a w) a = w"
proof (rule bit_word_eqI)
  fix n assume n: "n < LENGTH(32)"
  have c: "n < 8 \<or> (8 \<le> n \<and> n < 16) \<or> (16 \<le> n \<and> n < 24) \<or> (24 \<le> n \<and> n < 32)"
    using n by auto
  show "bit (read32 (write32 m a w) a) n = bit w n"
    unfolding read32_def write32_def using c
    by (auto simp: bit_simps)
qed

lemma read16_write16_same: "read16 (write16 m a w) a = w"
proof (rule bit_word_eqI)
  fix n assume n: "n < LENGTH(16)"
  have c: "n < 8 \<or> (8 \<le> n \<and> n < 16)"
    using n by auto
  show "bit (read16 (write16 m a w) a) n = bit w n"
    unfolding read16_def write16_def using c
    by (auto simp: bit_simps)
qed

lemma read8_write8_same: "read8 (write8 m a w) a = w"
  by (simp add: read8_def write8_def)

lemma read32_eqI: "(\<And>k. k < 4 \<Longrightarrow> m' (a + k) = m (a + k)) \<Longrightarrow> read32 m' a = read32 m a"
proof -
  assume h: "\<And>k. k < 4 \<Longrightarrow> m' (a + k) = m (a + k)"
  have "m' a = m a" "m' (a + 1) = m (a + 1)" "m' (a + 2) = m (a + 2)" "m' (a + 3) = m (a + 3)"
    using h[of 0] h[of 1] h[of 2] h[of 3] by simp_all
  then show ?thesis by (simp add: read32_def)
qed

lemma read16_eqI: "(\<And>k. k < 2 \<Longrightarrow> m' (a + k) = m (a + k)) \<Longrightarrow> read16 m' a = read16 m a"
proof -
  assume h: "\<And>k. k < 2 \<Longrightarrow> m' (a + k) = m (a + k)"
  have "m' a = m a" "m' (a + 1) = m (a + 1)"
    using h[of 0] h[of 1] by simp_all
  then show ?thesis by (simp add: read16_def)
qed

lemma write32_frame: "x < a \<or> a + 4 \<le> x \<Longrightarrow> write32 m a w x = m x"
  by (auto simp: write32_def)

lemma write16_frame: "x < a \<or> a + 2 \<le> x \<Longrightarrow> write16 m a w x = m x"
  by (auto simp: write16_def)

lemma write8_frame: "x \<noteq> a \<Longrightarrow> write8 m a w x = m x"
  by (auto simp: write8_def)

lemma memset_frame: "x < a \<or> a + n \<le> x \<Longrightarrow> memset m a v n x = m x"
  by (auto simp: memset_def)

lemma memset_inside: "a \<le> x \<Longrightarrow> x < a + n \<Longrightarrow> memset m a v n x = v"
  by (auto simp: memset_def)

lemma read32_write32_other:
  "b + 4 \<le> a \<or> a + 4 \<le> b \<Longrightarrow> read32 (write32 m a w) b = read32 m b"
  by (rule read32_eqI) (auto simp: write32_frame)

lemma read32_write16_other:
  "b + 4 \<le> a \<or> a + 2 \<le> b \<Longrightarrow> read32 (write16 m a w) b = read32 m b"
  by (rule read32_eqI) (auto simp: write16_frame)

lemma read32_write8_other:
  "b + 4 \<le> a \<or> a < b \<Longrightarrow> read32 (write8 m a w) b = read32 m b"
  by (rule read32_eqI) (auto simp: write8_frame)

lemma read32_memset_other:
  "b + 4 \<le> a \<or> a + n \<le> b \<Longrightarrow> read32 (memset m a v n) b = read32 m b"
  by (rule read32_eqI) (auto simp: memset_frame)

lemma read16_write32_other:
  "b + 2 \<le> a \<or> a + 4 \<le> b \<Longrightarrow> read16 (write32 m a w) b = read16 m b"
  by (rule read16_eqI) (auto simp: write32_frame)

lemma read16_write16_other:
  "b + 2 \<le> a \<or> a + 2 \<le> b \<Longrightarrow> read16 (write16 m a w) b = read16 m b"
  by (rule read16_eqI) (auto simp: write16_frame)

lemma read16_write8_other:
  "b + 2 \<le> a \<or> a < b \<Longrightarrow> read16 (write8 m a w) b = read16 m b"
  by (rule read16_eqI) (auto simp: write8_frame)

lemma read16_memset_other:
  "b + 2 \<le> a \<or> a + n \<le> b \<Longrightarrow> read16 (memset m a v n) b = read16 m b"
  by (rule read16_eqI) (auto simp: memset_frame)

lemma read8_write32_other:
  "b < a \<or> a + 4 \<le> b \<Longrightarrow> read8 (write32 m a w) b = read8 m b"
  by (simp add: read8_def write32_frame)

lemma read8_write16_other:
  "b < a \<or> a + 2 \<le> b \<Longrightarrow> read8 (write16 m a w) b = read8 m b"
  by (simp add: read8_def write16_frame)

lemma read8_memset_other:
  "b < a \<or> a + n \<le> b \<Longrightarrow> read8 (memset m a v n) b = read8 m b"
  by (simp add: read8_def memset_frame)

lemmas read_write_simps =
  read32_write32_same read16_write16_same read8_write8_same
  read32_write32_other read32_write16_other read32_write8_other read32_memset_other
  read16_write32_other read16_write16_other read16_write8_other read16_memset_other
  read8_write32_other read8_write16_other read8_memset_other

lemma writeFields_fields:
  "read32 (writeFields m d mg rs sp pc zi sq) d = mg"
  "read32 (writeFields m d mg rs sp pc zi sq) (d + 4) = rs"
  "read16 (writeFields m d mg rs sp pc zi sq) (d + 8) = sp"
  "read16 (writeFields m d mg rs sp pc zi sq) (d + 10) = pc"
  "read8 (writeFields m d mg rs sp pc zi sq) (d + 12) = zi"
  "read32 (writeFields m d mg rs sp pc zi sq) (d + 16) = sq"
  "read32 (writeFields m d mg rs sp pc zi sq) (d + 20) = 0"
  "read32 (writeFields m d mg rs sp pc zi sq) (d + 24) = 0"
  by (simp_all add: writeFields_def Let_def read_write_simps)

lemma writeFields_frame:
  "x < d \<or> d + 28 \<le> x \<Longrightarrow> writeFields m d mg rs sp pc zi sq x = m x"
  by (auto simp: writeFields_def Let_def write32_frame write16_frame write8_frame memset_frame)

subsection \<open>Block guard: the round trip\<close>

lemma upt7: "[0..<7] = [0, 1, 2, 3, 4, 5, 6]"
  by code_simp

lemma computeChecksum_32: "computeChecksum m b 32 = Some (xorWords m b)"
  by (simp add: computeChecksum_def xorWords_def upt7 ac_simps)

lemma sameBytes_read32: "sameBytes m' m a n \<Longrightarrow> a \<le> b \<Longrightarrow> b + 4 \<le> a + n \<Longrightarrow> read32 m' b = read32 m b"
  by (rule read32_eqI) (simp add: sameBytes_def)

lemma sameBytes_read16: "sameBytes m' m a n \<Longrightarrow> a \<le> b \<Longrightarrow> b + 2 \<le> a + n \<Longrightarrow> read16 m' b = read16 m b"
  by (rule read16_eqI) (simp add: sameBytes_def)

lemma sameBytes_read8: "sameBytes m' m a n \<Longrightarrow> a \<le> b \<Longrightarrow> b < a + n \<Longrightarrow> read8 m' b = read8 m b"
  by (simp add: sameBytes_def read8_def)

lemma sameBytes_xorWords: "sameBytes m' m a 32 \<Longrightarrow> xorWords m' a = xorWords m a"
  unfolding xorWords_def
  by (simp add: sameBytes_read32[where a=a and n=32])

lemma sameBytes_validateHeader: "sameBytes m' m h 32 \<Longrightarrow> validateHeader m' h = validateHeader m h"
  by (simp add: validateHeader_def computeChecksum_32 ALLOC_HEADER_SIZE_def sameBytes_xorWords
        sameBytes_read32[where a=h and n=32])


lemma writeHeader_eq:
  "writeHeader m h rs sp pc zi sq =
     Some (sealRecord (writeFields m h ALLOC_PATTERN_HEADER_MAGIC rs sp pc zi sq) h)"
  by (simp add: writeHeader_def Let_def computeChecksum_32 ALLOC_HEADER_SIZE_def sealRecord_def)

lemma writeFooter_eq:
  "writeFooter m f rs sp pc zi sq =
     Some (sealRecord (writeFields m f ALLOC_PATTERN_FOOTER_MAGIC rs sp pc zi sq) f)"
  by (simp add: writeFooter_def Let_def computeChecksum_32 ALLOC_FOOTER_SIZE_def sealRecord_def)

lemma sealRecord_reads:
  "k + 4 \<le> 28 \<Longrightarrow> read32 (sealRecord m d) (d + k) = read32 m (d + k)"
  "k + 2 \<le> 28 \<Longrightarrow> read16 (sealRecord m d) (d + k) = read16 m (d + k)"
  "k < 28 \<Longrightarrow> read8 (sealRecord m d) (d + k) = read8 m (d + k)"
  "read32 (sealRecord m d) d = read32 m d"
  "read32 (sealRecord m d) (d + 28) = xorWords m d"
  by (simp_all add: sealRecord_def read_write_simps)

lemma sealRecord_xorWords: "xorWords (sealRecord m d) d = xorWords m d"
  by (simp add: xorWords_def sealRecord_reads)

lemma sealRecord_frame: "x < d + 28 \<or> d + 32 \<le> x \<Longrightarrow> sealRecord m d x = m x"
  by (auto simp: sealRecord_def write32_frame)

lemma writeRecord_frame:
  "x < d \<or> d + 32 \<le> x \<Longrightarrow> writeRecord m d mg rs sp pc zi sq x = m x"
  by (auto simp: writeRecord_def sealRecord_frame writeFields_frame)

lemma writeRecord_fields:
  "read32 (writeRecord m d mg rs sp pc zi sq) d = mg"
  "read32 (writeRecord m d mg rs sp pc zi sq) (d + 4) = rs"
  "read16 (writeRecord m d mg rs sp pc zi sq) (d + 8) = sp"
  "read16 (writeRecord m d mg rs sp pc zi sq) (d + 10) = pc"
  "read8 (writeRecord m d mg rs sp pc zi sq) (d + 12) = zi"
  "read32 (writeRecord m d mg rs sp pc zi sq) (d + 16) = sq"
  "read32 (writeRecord m d mg rs sp pc zi sq) (d + 28) = xorWords (writeRecord m d mg rs sp pc zi sq) d"
  by (simp_all add: writeRecord_def sealRecord_reads writeFields_fields sealRecord_xorWords)

lemma validateHeader_writeRecord:
  "validateHeader (writeRecord m h ALLOC_PATTERN_HEADER_MAGIC rs sp pc zi sq) h = Some True"
  by (simp add: validateHeader_def computeChecksum_32 ALLOC_HEADER_SIZE_def writeRecord_fields)

lemma validateFooter_writeRecord:
  "validateFooter (writeRecord m f ALLOC_PATTERN_FOOTER_MAGIC rs sp pc zi sq) f = Some True"
  by (simp add: validateFooter_def computeChecksum_32 ALLOC_FOOTER_SIZE_def writeRecord_fields)

lemma writeRecord_sameBytes:
  "a + n \<le> d \<or> d + 32 \<le> a \<Longrightarrow> sameBytes (writeRecord m d mg rs sp pc zi sq) m a n"
  by (auto simp: sameBytes_def writeRecord_frame)

text \<open>
  C7. For all arguments, \<open>writeHeader\<close> and then \<open>writeFooter\<close> with the same
  arguments return; the header validates, the footer validates, each stored checksum is
  the XOR of the seven words before it, and, the two records being different objects
  (their 32-byte ranges do not overlap), the header still validates after the footer is
  written and \<open>validatePair\<close> holds.
\<close>

theorem guard_round_trip:
  "\<exists>m1 m2. writeHeader m h rs sp pc zi sq = Some m1 \<and>
           writeFooter m1 f rs sp pc zi sq = Some m2 \<and>
           validateHeader m1 h = Some True \<and>
           read32 m1 (h + 28) = xorWords m1 h \<and>
           validateFooter m2 f = Some True \<and>
           read32 m2 (f + 28) = xorWords m2 f \<and>
           (h + 32 \<le> f \<or> f + 32 \<le> h \<longrightarrow>
              validateHeader m2 h = Some True \<and> read32 m2 (h + 28) = xorWords m2 h \<and>
              validatePair m2 h f)"
proof -
  let ?m1 = "writeRecord m h ALLOC_PATTERN_HEADER_MAGIC rs sp pc zi sq"
  let ?m2 = "writeRecord ?m1 f ALLOC_PATTERN_FOOTER_MAGIC rs sp pc zi sq"
  have w1: "writeHeader m h rs sp pc zi sq = Some ?m1"
    by (simp add: writeHeader_eq writeRecord_def)
  have w2: "writeFooter ?m1 f rs sp pc zi sq = Some ?m2"
    by (simp add: writeFooter_eq writeRecord_def)
  have v1: "validateHeader ?m1 h = Some True" by (rule validateHeader_writeRecord)
  have c1: "read32 ?m1 (h + 28) = xorWords ?m1 h" by (rule writeRecord_fields)
  have v2: "validateFooter ?m2 f = Some True" by (rule validateFooter_writeRecord)
  have c2: "read32 ?m2 (f + 28) = xorWords ?m2 f" by (rule writeRecord_fields)
  have pair: "validateHeader ?m2 h = Some True \<and> read32 ?m2 (h + 28) = xorWords ?m2 h \<and>
              validatePair ?m2 h f" if d: "h + 32 \<le> f \<or> f + 32 \<le> h"
  proof -
    have sb: "sameBytes ?m2 ?m1 h 32" using d by (intro writeRecord_sameBytes) auto
    have "validateHeader ?m2 h = Some True"
      using sameBytes_validateHeader[OF sb] v1 by simp
    moreover have "read32 ?m2 (h + 28) = xorWords ?m2 h"
      using sameBytes_read32[OF sb, of "h + 28"] sameBytes_xorWords[OF sb] c1 by simp
    moreover have "validatePair ?m2 h f"
      unfolding validatePair_def
      using sameBytes_read32[OF sb, of "h + 4"] sameBytes_read32[OF sb, of "h + 16"]
        sameBytes_read16[OF sb, of "h + 8"] sameBytes_read16[OF sb, of "h + 10"]
        sameBytes_read8[OF sb, of "h + 12"]
      by (simp add: writeRecord_fields)
    ultimately show ?thesis by simp
  qed
  show ?thesis
    using w1 w2 v1 c1 v2 c2 pair by blast
qed

theorem guard_round_trip_witness:
  "(4096 :: nat) + 32 \<le> 4228 \<and>
   (\<exists>m1 m2. writeHeader (\<lambda>x. 0) 4096 100 0 1 0 7 = Some m1 \<and>
            writeFooter m1 4228 100 0 1 0 7 = Some m2 \<and>
            validateHeader m1 4096 = Some True \<and>
            validateFooter m2 4228 = Some True \<and>
            validateHeader m2 4096 = Some True \<and>
            read32 m2 (4096 + 28) = xorWords m2 4096 \<and>
            read32 m2 (4228 + 28) = xorWords m2 4228 \<and>
            validatePair m2 4096 4228)"
proof -
  have h: "(4096 :: nat) + 32 \<le> 4228" by simp
  show ?thesis
    using h guard_round_trip[of "\<lambda>x. 0" 4096 100 0 1 0 7 4228] by blast
qed

subsection \<open>Page allocator: evaluation of the loops, the sample zone\<close>

lemma setRange_loop_numeral:
  "setRange_loop b start i (numeral k) =
     (case bm_set b (start + i) of None \<Rightarrow> None
      | Some b' \<Rightarrow> setRange_loop b' start (i + 1) (pred_numeral k))"
  by (simp add: numeral_eq_Suc)


lemma verifyQuarantine_loop_inactive:
  "(\<And>j. i \<le> j \<Longrightarrow> j < i + n \<Longrightarrow> active (entries (quarantine z) ! j) = 0)
     \<Longrightarrow> verifyQuarantine_loop z m i n = Some True"
proof (induction n arbitrary: i)
  case 0
  then show ?case by simp
next
  case (Suc n)
  have "active (entries (quarantine z) ! i) = 0" using Suc.prems[of i] by simp
  moreover have "verifyQuarantine_loop z m (i + 1) n = Some True"
    using Suc.prems by (intro Suc.IH) auto
  ultimately show ?case by (simp add: verifyEntry_def)
qed

lemma read_writeRecord_other:
  "b + 4 \<le> d \<or> d + 32 \<le> b \<Longrightarrow> read32 (writeRecord m d mg rs sp pc zi sq) b = read32 m b"
  "b + 2 \<le> d \<or> d + 32 \<le> b \<Longrightarrow> read16 (writeRecord m d mg rs sp pc zi sq) b = read16 m b"
  "b < d \<or> d + 32 \<le> b \<Longrightarrow> read8 (writeRecord m d mg rs sp pc zi sq) b = read8 m b"
  by (auto intro!: read32_eqI read16_eqI simp: writeRecord_frame read8_def)

text \<open>The fields of a record, read at an address given as a number.\<close>

lemma writeRecord_fields_at:
  "b = d + 4 \<Longrightarrow> read32 (writeRecord m d mg rs sp pc zi sq) b = rs"
  "b = d + 8 \<Longrightarrow> read16 (writeRecord m d mg rs sp pc zi sq) b = sp"
  "b = d + 10 \<Longrightarrow> read16 (writeRecord m d mg rs sp pc zi sq) b = pc"
  "b = d + 12 \<Longrightarrow> read8 (writeRecord m d mg rs sp pc zi sq) b = zi"
  "b = d + 16 \<Longrightarrow> read32 (writeRecord m d mg rs sp pc zi sq) b = sq"
  by (simp_all add: writeRecord_fields)

lemma writeHeader_writeRecord:
  "writeHeader m h rs sp pc zi sq = Some (writeRecord m h ALLOC_PATTERN_HEADER_MAGIC rs sp pc zi sq)"
  by (simp add: writeHeader_eq writeRecord_def)

lemma writeFooter_writeRecord:
  "writeFooter m f rs sp pc zi sq = Some (writeRecord m f ALLOC_PATTERN_FOOTER_MAGIC rs sp pc zi sq)"
  by (simp add: writeFooter_eq writeRecord_def)

lemma zone16_eq:
  "zone16 = \<lparr>baseAddress = 0x20000000, regionSize = 16384, totalPages = 16,
             zoneIndex = 0, initialized = True,
             bitmapInUse = \<lparr>words = replicate 320 0, pageCount = 16\<rparr>,
             bitmapAllocated = \<lparr>words = replicate 320 0, pageCount = 16\<rparr>,
             quarantine = QuarantineTable_init,
             sequenceCounter = 0, freePagesCount = 16, minEverFreePages = 16,
             successfulAllocs = 0, successfulFrees = 0\<rparr>"
  by (simp add: zone16_def PageAllocator_init_def PageBitmap_init_def conf Let_def)

lemma verifyQuarantine_zone16: "verifyQuarantine zone16 m = Some True"
  unfolding verifyQuarantine_def
  by (rule verifyQuarantine_loop_inactive)
     (simp add: zone16_eq QuarantineTable_init_def conf zeroEntry_def)

subsection \<open>Page allocator: what a returning call has done\<close>

lemma userData_nonzero: "userDataFromHeader h \<noteq> 0"
  by (simp add: userDataFromHeader_def ALLOC_HEADER_SIZE_def)

text \<open>What a call of allocate that returns has done.\<close>

lemma allocate_cases:
  assumes "allocate z m rs = Some (z', m', p)"
  shows "(p = 0 \<and> z' = z \<and> m' = m) \<or>
         (p \<noteq> 0 \<and> initialized z \<and> rs \<noteq> 0 \<and>
          \<not> (ucast (pagesNeeded rs) :: size_t) > freePagesCount z \<and>
          (\<exists>sp32 bu ba m1 m2 padLen.
             findFreeRun (bitmapInUse z) (pagesNeeded rs) = Some sp32 \<and> 0 \<le> sp32 \<and>
             setRange (bitmapInUse z) (word_of_int sp32) (pagesNeeded rs) = Some bu \<and>
             setRange (bitmapAllocated z) (word_of_int sp32) (pagesNeeded rs) = Some ba \<and>
             writeHeader m (pageAddress z (word_of_int sp32)) rs (word_of_int sp32) (pagesNeeded rs)
               (zoneIndex z) (sequenceCounter z) = Some m1 \<and>
             writeFooter m1 (footerFromHeader m1 (pageAddress z (word_of_int sp32))) rs
               (word_of_int sp32) (pagesNeeded rs) (zoneIndex z) (sequenceCounter z) = Some m2 \<and>
             paddingSize m2 (pageAddress z (word_of_int sp32)) = Some padLen \<and>
             m' = (if padLen > 0
                   then fillPadding m2 (paddingFromHeader m2 (pageAddress z (word_of_int sp32))) (unat padLen)
                   else m2) \<and>
             p = userDataFromHeader (pageAddress z (word_of_int sp32)) \<and>
             z' = z\<lparr>bitmapInUse := bu, bitmapAllocated := ba,
                     sequenceCounter := sequenceCounter z + 1,
                     freePagesCount := freePagesCount z - ucast (pagesNeeded rs),
                     minEverFreePages :=
                       (if freePagesCount z - ucast (pagesNeeded rs) < minEverFreePages z
                        then freePagesCount z - ucast (pagesNeeded rs) else minEverFreePages z),
                     successfulAllocs := successfulAllocs z + 1\<rparr>))"
  using assms userData_nonzero[of "pageAddress z (word_of_int (the (findFreeRun (bitmapInUse z) (pagesNeeded rs))))"]
  unfolding allocate_def Let_def
  by (auto split: if_splits option.splits)

text \<open>
  C4. When \<open>allocate\<close> or \<open>calloc\<close> returns NULL, the zone (both bitmaps, the
  quarantine, \<open>freePagesCount\<close>, \<open>minEverFreePages\<close>, the counters, the sequence
  counter) and the memory are as before the call; and each of the reportable reasons
  (zone not initialized, size zero, too few free pages, no free run, overflow of the
  multiplication in \<open>calloc\<close>) makes the call return NULL.
\<close>

theorem null_return_leaves_state:
  "(allocate z m rs = Some (z', m', 0) \<longrightarrow> z' = z \<and> m' = m) \<and>
   (calloc z m num elemSize = Some (z', m', 0) \<longrightarrow> z' = z \<and> m' = m) \<and>
   (\<not> initialized z \<or> rs = 0 \<longrightarrow> allocate z m rs = Some (z, m, 0)) \<and>
   ((ucast (pagesNeeded rs) :: size_t) > freePagesCount z \<longrightarrow> allocate z m rs = Some (z, m, 0)) \<and>
   (initialized z \<and> rs \<noteq> 0 \<and> \<not> (ucast (pagesNeeded rs) :: size_t) > freePagesCount z \<and>
      verifyQuarantine z m = Some True \<and> findFreeRun (bitmapInUse z) (pagesNeeded rs) = Some (- 1)
      \<longrightarrow> allocate z m rs = Some (z, m, 0)) \<and>
   (num > 0 \<and> elemSize > SIZE_MAX div num \<longrightarrow> calloc z m num elemSize = Some (z, m, 0))"
proof -
  have a: "allocate z m rs = Some (z', m', 0) \<longrightarrow> z' = z \<and> m' = m"
    using allocate_cases[of z m rs z' m' 0] by auto
  have c: "calloc z m num elemSize = Some (z', m', 0) \<longrightarrow> z' = z \<and> m' = m"
  proof
    assume h: "calloc z m num elemSize = Some (z', m', 0)"
    show "z' = z \<and> m' = m"
    proof (cases "num > 0 \<and> elemSize > SIZE_MAX div num")
      case True
      with h show ?thesis by (simp add: calloc_def)
    next
      case False
      with h obtain m1 where "allocate z m (num * elemSize) = Some (z', m1, 0)" and "m' = m1"
        by (auto simp: calloc_def Let_def split: option.splits if_splits)
      with allocate_cases[of z m "num * elemSize" z' m1 0] show ?thesis by auto
    qed
  qed
  have r1: "\<not> initialized z \<or> rs = 0 \<longrightarrow> allocate z m rs = Some (z, m, 0)"
    by (auto simp: allocate_def)
  have r2: "(ucast (pagesNeeded rs) :: size_t) > freePagesCount z \<longrightarrow> allocate z m rs = Some (z, m, 0)"
    by (auto simp: allocate_def Let_def)
  have r3: "initialized z \<and> rs \<noteq> 0 \<and> \<not> (ucast (pagesNeeded rs) :: size_t) > freePagesCount z \<and>
      verifyQuarantine z m = Some True \<and> findFreeRun (bitmapInUse z) (pagesNeeded rs) = Some (- 1)
      \<longrightarrow> allocate z m rs = Some (z, m, 0)"
    by (auto simp: allocate_def Let_def)
  have r4: "num > 0 \<and> elemSize > SIZE_MAX div num \<longrightarrow> calloc z m num elemSize = Some (z, m, 0)"
    by (simp add: calloc_def)
  show ?thesis using a c r1 r2 r3 r4 by blast
qed

theorem null_return_leaves_state_witness:
  "allocate zone16 mem0 0 = Some (zone16, mem0, 0) \<and>
   allocate zone16 mem0 17000 = Some (zone16, mem0, 0) \<and>
   calloc zone16 mem0 0xFFFFFFFF 2 = Some (zone16, mem0, 0)"
proof -
  have h2: "(ucast (pagesNeeded 17000) :: size_t) > freePagesCount zone16"
    by (simp add: pagesNeeded_def conf zone16_eq)
  have h3: "(0xFFFFFFFF :: size_t) > 0 \<and> (2 :: size_t) > SIZE_MAX div 0xFFFFFFFF"
    by (simp add: SIZE_MAX_def)
  show ?thesis
    using h2 h3
      null_return_leaves_state[where z=zone16 and m=mem0 and rs=0 and z'=zone16 and m'=mem0
        and num="0xFFFFFFFF" and elemSize=2]
      null_return_leaves_state[where z=zone16 and m=mem0 and rs=17000 and z'=zone16 and m'=mem0
        and num="0xFFFFFFFF" and elemSize=2]
    by blast
qed

subsection \<open>Page allocator: calloc\<close>

lemma calloc_product:
  assumes "\<not> (num > 0 \<and> elemSize > SIZE_MAX div num)"
  shows "unat (num * elemSize) = unat num * unat (elemSize :: size_t)"
proof (cases "num = 0")
  case True
  then show ?thesis by simp
next
  case False
  then have pos: "0 < unat num" by (simp add: unat_gt_0)
  from False assms have "elemSize \<le> SIZE_MAX div num"
    by (simp add: word_neq_0_conv not_less)
  then have "unat elemSize \<le> unat (SIZE_MAX div num)" by (simp add: word_le_nat_alt)
  also have "\<dots> = (2 ^ 32 - 1) div unat num"
  proof -
    have "unat SIZE_MAX = 2 ^ 32 - 1"
      by (simp add: SIZE_MAX_def unsigned_minus_1_eq_mask mask_eq_exp_minus_1)
    then show ?thesis by (simp add: unat_div)
  qed
  finally have "unat elemSize * unat num \<le> ((2 ^ 32 - 1) div unat num) * unat num"
    by (rule mult_le_mono1)
  also have "\<dots> \<le> 2 ^ 32 - 1" by simp
  finally have "unat num * unat elemSize < 2 ^ LENGTH(32)" by (simp add: mult.commute)
  then show ?thesis by (rule unat_mult_lem[THEN iffD1])
qed

lemma calloc_zone16: "\<exists>z' m'. calloc zone16 mem0 4 250 = Some (z', m', 0x20000020)"
  by (simp add: calloc_def allocate_def SIZE_MAX_def Let_def verifyQuarantine_zone16 pagesNeeded_def)
     (simp add: zone16_eq conf findFreeRun_def findFreeRun_loop.simps bm_test_def Let_def
        setRange_def setRange_loop_numeral bm_set_def pageAddress_def
        writeHeader_writeRecord writeFooter_writeRecord footerFromHeader_def paddingSize_def
        writeRecord_fields writeRecord_fields_at read_writeRecord_other userDataFromHeader_def)

text \<open>
  C8. \<open>calloc\<close> returns NULL when \<open>num > 0\<close> and \<open>elemSize > SIZE_MAX / num\<close>; and
  after a call that returns a pointer, the \<open>num * elemSize\<close> bytes from the pointer on
  are all zero.
\<close>

theorem calloc_overflow_and_zero:
  "(num > 0 \<and> elemSize > SIZE_MAX div num \<longrightarrow> calloc z m num elemSize = Some (z, m, 0)) \<and>
   (calloc z m num elemSize = Some (z', m', p) \<and> p \<noteq> 0 \<longrightarrow>
      (\<forall>x. p \<le> x \<and> x < p + unat num * unat elemSize \<longrightarrow> m' x = 0))"
proof (intro conjI impI)
  assume "num > 0 \<and> elemSize > SIZE_MAX div num"
  then show "calloc z m num elemSize = Some (z, m, 0)" by (simp add: calloc_def)
next
  assume h: "calloc z m num elemSize = Some (z', m', p) \<and> p \<noteq> 0"
  then have no: "\<not> (num > 0 \<and> elemSize > SIZE_MAX div num)"
    by (auto simp: calloc_def)
  with h obtain m1 where "m' = memset m1 p 0 (unat (num * elemSize))"
    by (auto simp: calloc_def Let_def split: option.splits if_splits)
  then show "\<forall>x. p \<le> x \<and> x < p + unat num * unat elemSize \<longrightarrow> m' x = 0"
    using calloc_product[OF no] by (simp add: memset_def)
qed

theorem calloc_overflow_and_zero_witness:
  "(0xFFFFFFFF :: size_t) > 0 \<and> (2 :: size_t) > SIZE_MAX div 0xFFFFFFFF \<and>
   calloc zone16 mem0 0xFFFFFFFF 2 = Some (zone16, mem0, 0) \<and>
   (\<exists>z' m'. calloc zone16 mem0 4 250 = Some (z', m', 0x20000020) \<and>
            (\<forall>x. 0x20000020 \<le> x \<and> x < 0x20000020 + 1000 \<longrightarrow> m' x = 0))"
proof -
  have h: "(0xFFFFFFFF :: size_t) > 0 \<and> (2 :: size_t) > SIZE_MAX div 0xFFFFFFFF"
    by (simp add: SIZE_MAX_def)
  from calloc_zone16 obtain z' m' where c: "calloc zone16 mem0 4 250 = Some (z', m', 0x20000020)"
    by blast
  have "\<forall>x. 0x20000020 \<le> x \<and> x < 0x20000020 + unat (4 :: size_t) * unat (250 :: size_t) \<longrightarrow> m' x = 0"
    using c calloc_overflow_and_zero[where num=4 and elemSize=250 and z=zone16 and m=mem0
        and z'=z' and m'=m' and p="0x20000020"]
    by simp
  then have z: "\<forall>x. 0x20000020 \<le> x \<and> x < 0x20000020 + 1000 \<longrightarrow> m' x = 0" by simp
  show ?thesis
    using h c z
      calloc_overflow_and_zero[where num="0xFFFFFFFF" and elemSize=2 and z=zone16 and m=mem0]
    by blast
qed

subsection \<open>Page bitmap: bits, ranges, first fit\<close>


















subsection \<open>Page allocator: requests whose page count does not fit 16 bits\<close>

lemma verifyQuarantine_fresh:
  "quarantine z = QuarantineTable_init \<Longrightarrow> verifyQuarantine z m = Some True"
  unfolding verifyQuarantine_def
  by (rule verifyQuarantine_loop_inactive)
     (simp add: QuarantineTable_init_def conf zeroEntry_def)

lemma otherZones_loop_numeral:
  "otherZones_loop a m route sz i (numeral k) =
     (if i = unat (primary route) then otherZones_loop a m route sz (i + 1) (pred_numeral k)
      else if trySecondary route \<and> i = unat (secondary route) then otherZones_loop a m route sz (i + 1) (pred_numeral k)
      else if \<not> initialized (zones a ! i) then otherZones_loop a m route sz (i + 1) (pred_numeral k)
      else
        (case allocateInZone a m i sz of
           None \<Rightarrow> None
         | Some (a', m', p) \<Rightarrow>
             if p \<noteq> 0 then Some (a', m', p) else otherZones_loop a' m' route sz (i + 1) (pred_numeral k)))"
  by (simp add: numeral_eq_Suc)

lemmas allocate_eval =
  allocate_def Let_def pagesNeeded_def conf findFreeRun_def findFreeRun_loop.simps bm_test_def
  setRange_def setRange_loop_numeral bm_set_def pageAddress_def
  writeHeader_writeRecord writeFooter_writeRecord footerFromHeader_def paddingSize_def
  writeRecord_fields writeRecord_fields_at read_writeRecord_other userDataFromHeader_def
  paddingFromHeader_def

lemma pagesNeeded_truncated: "pagesNeeded 67109824 = 1"
  by (simp add: pagesNeeded_def conf)

lemma allocate_huge_aborts: "allocate zone16 mem0 67109824 = None"
  by (simp add: allocate_def Let_def verifyQuarantine_zone16 pagesNeeded_truncated)
     (simp add: zone16_eq allocate_eval)

lemma allocate_wrapped_succeeds:
  "map_option (snd \<circ> snd) (allocate zone16 mem0 0xFFFFFFFF) = Some 0x20000020"
  by (simp add: allocate_def Let_def verifyQuarantine_zone16)
     (simp add: zone16_eq allocate_eval)

text \<open>
  C2 fails on the code for large requests. A request of 67109824 bytes needs 65537
  pages; \<open>pagesNeeded\<close> casts that to \<open>uint16_t\<close>, which is 1. On the fresh zone of
  16 pages no run of 65537 pages exists, so the call should return NULL; instead it
  takes one page, writes the footer 64 MiB behind the header and fails the assertion of
  \<open>paddingSize\<close>. A request of \<open>0xFFFFFFFF\<close> bytes wraps the 32-bit sum to 63 and is
  served with one page.
\<close>

theorem allocate_truncates_page_count:
  "pagesNeeded 67109824 = 1 \<and> allocate zone16 mem0 67109824 = None \<and>
   map_option (snd \<circ> snd) (allocate zone16 mem0 0xFFFFFFFF) = Some 0x20000020"
  using pagesNeeded_truncated allocate_huge_aborts allocate_wrapped_succeeds by simp

theorem allocate_truncates_page_count_witness:
  "allocate zone16 mem0 67109824 \<noteq> Some (zone16, mem0, 0)"
  using allocate_truncates_page_count by simp

subsection \<open>Multi-zone allocator: the route of HEAP_ZONE_FAST\<close>

lemma replicate_two: "replicate 2 x = [x, x]"
  by (simp add: numeral_2_eq_2)

lemma twoZones_eq:
  "twoZones =
     \<lparr>zones = [the (PageAllocator_init 0x10000000 1024 0), the (PageAllocator_init 0x20000000 16384 1)],
      activeZones = 2, currentZone = HEAP_ZONE_FAST, routerInitialized = True\<rparr>"
  by (simp add: twoZones_def setZone_def defineHeapRegions_def zeroAllocator_def conf
        PageAllocator_init_def PageBitmap_init_def Let_def replicate_two)

lemma zone0_eq:
  "the (PageAllocator_init 0x10000000 1024 0) =
     \<lparr>baseAddress = 0x10000000, regionSize = 1024, totalPages = 1,
      zoneIndex = 0, initialized = True,
      bitmapInUse = \<lparr>words = replicate 320 0, pageCount = 1\<rparr>,
      bitmapAllocated = \<lparr>words = replicate 320 0, pageCount = 1\<rparr>,
      quarantine = QuarantineTable_init,
      sequenceCounter = 0, freePagesCount = 1, minEverFreePages = 1,
      successfulAllocs = 0, successfulFrees = 0\<rparr>"
  by (simp add: PageAllocator_init_def PageBitmap_init_def conf Let_def)

lemma zone1_eq:
  "the (PageAllocator_init 0x20000000 16384 1) =
     \<lparr>baseAddress = 0x20000000, regionSize = 16384, totalPages = 16,
      zoneIndex = 1, initialized = True,
      bitmapInUse = \<lparr>words = replicate 320 0, pageCount = 16\<rparr>,
      bitmapAllocated = \<lparr>words = replicate 320 0, pageCount = 16\<rparr>,
      quarantine = QuarantineTable_init,
      sequenceCounter = 0, freePagesCount = 16, minEverFreePages = 16,
      successfulAllocs = 0, successfulFrees = 0\<rparr>"
  by (simp add: PageAllocator_init_def PageBitmap_init_def conf Let_def)

lemma fast_zone_full: "allocate (the (PageAllocator_init 0x10000000 1024 0)) m 2000 =
    Some (the (PageAllocator_init 0x10000000 1024 0), m, 0)"
  by (simp add: zone0_eq allocate_def Let_def pagesNeeded_def conf)

lemma slow_zone_serves:
  "map_option (snd \<circ> snd) (allocate (the (PageAllocator_init 0x20000000 16384 1)) mem0 2000) = Some 0x20000020"
  unfolding zone1_eq
  by (simp add: allocate_def Let_def verifyQuarantine_fresh)
     (simp add: allocate_eval)

text \<open>
  C1 fails on the code. With the selector \<open>HEAP_ZONE_FAST\<close>, a fast zone (zone 0) of
  one page and a request of 2000 bytes (three pages), zone 0 returns NULL, and
  \<open>allocate\<close> then serves the request from zone 1: the last loop of
  \<open>allocateWithRoute\<close> skips the secondary only when \<open>trySecondary\<close> is set, and runs
  whether or not fallback is permitted. \<open>calloc\<close>, which has no such loop, returns NULL
  for the same request.
\<close>

theorem fast_falls_back:
  "currentZone twoZones = HEAP_ZONE_FAST \<and>
   map_option (snd \<circ> snd) (allocate (zones twoZones ! 0) mem0 2000) = Some 0 \<and>
   map_option (snd \<circ> snd) (router_allocate twoZones mem0 2000) = Some 0x20000020 \<and>
   map_option (snd \<circ> snd) (router_calloc twoZones mem0 1 2000) = Some 0"
proof -
  obtain z' m' where s: "allocate (the (PageAllocator_init 0x20000000 16384 1)) mem0 2000 = Some (z', m', 0x20000020)"
    using slow_zone_serves by (auto simp: map_option_case split: option.splits)
  have r: "map_option (snd \<circ> snd) (router_allocate twoZones mem0 2000) = Some 0x20000020"
    by (simp add: router_allocate_def allocateWithRoute_def twoZones_eq allocateInZone_def
          fast_zone_full s otherZones_loop_numeral zone0_eq[THEN arg_cong[where f=initialized]]
          zone1_eq[THEN arg_cong[where f=initialized]])
  have c: "map_option (snd \<circ> snd) (router_calloc twoZones mem0 1 2000) = Some 0"
    by (simp add: router_calloc_def twoZones_eq callocInZone_def calloc_def SIZE_MAX_def
          fast_zone_full Let_def zone0_eq[THEN arg_cong[where f=initialized]])
  show ?thesis using r c by (simp add: twoZones_eq fast_zone_full)
qed

theorem fast_falls_back_witness:
  "router_allocate twoZones mem0 2000 \<noteq> None \<and>
   map_option (snd \<circ> snd) (router_allocate twoZones mem0 2000) \<noteq> Some 0"
  using fast_falls_back by auto

subsection \<open>Zone invariants: counting set bits\<close>







subsection \<open>Zone invariants: what allocate has done\<close>










subsection \<open>Zone invariants: what deallocate has done\<close>










subsection \<open>The free page count\<close>





subsection \<open>The sample block: allocation and first free\<close>





lemma memset_empty: "memset m a v 0 = m"
  by (rule ext) (auto simp: memset_def)






















subsection \<open>Zone invariants: the sample zone\<close>







subsection \<open>Zone invariants: bitmaps and quarantined pages\<close>




subsection \<open>The free page count and the inUse bitmap\<close>



end
